theory Spec2Isabelle
  imports Main "HOL-Library.Word"
begin

section \<open>Data model of the pipe subsystem (kernel/util/multitasking/pipe.c)\<close>

text \<open>
  A C \<open>char\<close> is a byte. The kernel is built for x86, where \<open>char\<close> is signed:
  the comparison \<open>buf[i] == EOF\<close> promotes the byte to \<open>int\<close> by sign extension
  (\<open>sint\<close>), and \<open>char eof = EOF\<close> truncates the \<open>int\<close> (\<open>word_of_int\<close>).

  The macro \<open>EOF\<close> comes from a header that is not part of the sources at hand, so every
  operation that mentions it takes its value as the parameter \<open>eof\<close>.

  The caller's buffer \<open>char* buf\<close> is the memory around the pointer, indexed by the
  offset from it: \<open>buf[i]\<close> is \<open>buf i\<close>, and a store is \<open>buf(i := v)\<close>. The offset is an
  \<open>int\<close> because \<open>pipe_read\<close> can store at offset \<open>-1\<close>.

  Descriptors, process ids and byte counts are C \<open>int\<close>s of 32 bits, modelled as \<open>int\<close>
  with the wrap-around written out where the code does arithmetic. The loop counters
  \<open>i++\<close>, \<open>i--\<close> stay between \<open>-1\<close> and \<open>count\<close>, so they never overflow. The descriptor
  counter \<open>fd_max++\<close> wraps from \<open>INT_MAX\<close> to \<open>INT_MIN\<close>, as the two's complement
  target does.
\<close>

type_synonym byte = "8 word"
type_synonym cbuf = "int \<Rightarrow> byte"
type_synonym addr = nat

definition int_incr :: "int \<Rightarrow> int" where
  \<comment> \<open>the value of a 32-bit C \<open>int\<close> after \<open>++\<close>\<close>
  "int_incr x = (if x = 2147483647 then - 2147483648 else x + 1)"

datatype direction = READ | WRITE

text \<open>
  The outcomes of the operations that are not a normal return. The first five are the
  guarded failures of pipe.c (each prints a message and returns, or aborts through
  \<open>ASSERT\<close>). \<open>ArrayFull\<close> is an insertion into a full \<open>array_m\<close>, \<open>BadPointer\<close> a
  dereference (or a second release) of a block that is not allocated: C leaves that
  undefined, and the model stops there instead of guessing a result. The messages that
  \<open>printf_err\<close> sends to the console are not part of the model.
\<close>

datatype error =
    InvalidDescriptor
  | WrongDirection
  | NotOwned
  | NotRegistered
  | OutOfDescriptors
  | ArrayFull
  | BadPointer

subsection \<open>The bounded array \<open>array_m\<close>\<close>

text \<open>
  Modelled from the spec: the generic array container \<open>array_m\<close> (std/array_m.c) is not
  among the sources. The spec describes the registry it implements as "an ordered, bounded
  collection of PipeEndpoint references held by one process, sized at process creation",
  resolved by "linear scan, first match". The model is the list of the stored items in
  insertion order together with the fixed bound.
\<close>

record 'a array_m =
  items :: "'a list"
  max_size :: nat

definition array_m_create :: "nat \<Rightarrow> 'a array_m" where
  \<comment> \<open>Modelled from the spec: an empty collection with the given bound.\<close>
  "array_m_create n = \<lparr>items = [], max_size = n\<rparr>"

definition array_m_size :: "'a array_m \<Rightarrow> nat" where
  \<comment> \<open>Modelled from the spec: the field \<open>size\<close>, the number of stored items.\<close>
  "array_m_size a = length (items a)"

definition array_m_insert :: "'a array_m \<Rightarrow> 'a \<Rightarrow> 'a array_m option" where
  \<comment> \<open>Modelled from the spec: appends at the end; \<open>None\<close> when the bound is reached.\<close>
  "array_m_insert a x =
     (if array_m_size a < max_size a then Some (a\<lparr>items := items a @ [x]\<rparr>) else None)"

primrec first_index :: "'a list \<Rightarrow> 'a \<Rightarrow> nat option" where
  "first_index [] x = None"
| "first_index (y # ys) x =
     (if y = x then Some 0 else map_option Suc (first_index ys x))"

definition array_m_index :: "'a array_m \<Rightarrow> 'a \<Rightarrow> nat option" where
  \<comment> \<open>Modelled from the spec: position of the first item equal to \<open>x\<close>;
      \<open>None\<close> stands for \<open>ARR_NOT_FOUND\<close>.\<close>
  "array_m_index a x = first_index (items a) x"

definition array_m_remove :: "'a array_m \<Rightarrow> nat \<Rightarrow> 'a array_m" where
  \<comment> \<open>Modelled from the spec: removes the item at position \<open>i\<close>, keeping the order of the rest.\<close>
  "array_m_remove a i = a\<lparr>items := take i (items a) @ drop (Suc i) (items a)\<rparr>"

subsection \<open>The ring buffer \<open>circular_buffer\<close>\<close>

text \<open>
  Modelled from the spec: the ring buffer (std/circular_buffer.c) is not among the
  sources. Spec, section 3: "capacity (fixed at creation), element size (1 byte here),
  current count, read/write cursors, owning storage block. Invariant: 0 <= count <=
  capacity; pop fails when count = 0; push fails when count = capacity"; section 4.1:
  "each operation moves exactly one byte"; glossary: "fixed-capacity FIFO byte store with
  wraparound storage". \<open>cb_head\<close> is the write cursor, \<open>cb_tail\<close> the read cursor.
\<close>

record circular_buffer =
  cb_storage :: "byte list"
  cb_capacity :: nat
  cb_count :: nat
  cb_sz :: nat
  cb_head :: nat
  cb_tail :: nat

definition cb_init :: "nat \<Rightarrow> nat \<Rightarrow> circular_buffer" where
  \<comment> \<open>Modelled from the spec: an empty buffer of \<open>capacity\<close> elements of width \<open>sz\<close>.\<close>
  "cb_init capacity sz =
     \<lparr>cb_storage = replicate (capacity * sz) 0, cb_capacity = capacity, cb_count = 0,
      cb_sz = sz, cb_head = 0, cb_tail = 0\<rparr>"

definition cb_push_back :: "circular_buffer \<Rightarrow> byte \<Rightarrow> circular_buffer option" where
  \<comment> \<open>Modelled from the spec: \<open>push_back(byte) -> Ok | Err(Full)\<close>, \<open>None\<close> for \<open>Err(Full)\<close>.\<close>
  "cb_push_back cb b =
     (if cb_count cb = cb_capacity cb then None
      else Some (cb\<lparr>cb_storage := (cb_storage cb)[cb_head cb := b],
                    cb_head := (cb_head cb + 1) mod cb_capacity cb,
                    cb_count := cb_count cb + 1\<rparr>))"

definition cb_pop_front :: "circular_buffer \<Rightarrow> (byte \<times> circular_buffer) option" where
  \<comment> \<open>Modelled from the spec: \<open>pop_front() -> Ok(byte) | Err(Empty)\<close>, \<open>None\<close> for \<open>Err(Empty)\<close>.\<close>
  "cb_pop_front cb =
     (if cb_count cb = 0 then None
      else Some (cb_storage cb ! cb_tail cb,
                 cb\<lparr>cb_tail := (cb_tail cb + 1) mod cb_capacity cb,
                    cb_count := cb_count cb - 1\<rparr>))"

subsection \<open>Endpoints, the current task, and the kernel heap\<close>

text \<open>
  \<open>pipe_t\<close> as pipe.c uses it: \<open>dir\<close>, \<open>fd\<close>, \<open>pids\<close> and \<open>cb\<close>. The owner array \<open>pids\<close>
  belongs to one endpoint alone and is stored in the record; \<open>cb\<close> is a pointer, because
  the two ends of a pipe share one buffer.
\<close>

record pipe_t =
  pipe_dir :: direction
  pipe_fd :: int
  pipe_pids :: "int array_m"
  pipe_cb :: addr

text \<open>The fields of \<open>task_t\<close> that pipe.c reads or writes.\<close>

record task_t =
  task_id :: int
  fd_max :: int
  pipes :: "addr array_m"

text \<open>
  The kernel state seen by pipe.c: the task \<open>task_with_pid(getpid())\<close>, and the blocks
  handed out by \<open>kmalloc\<close>, one heap per type. A pointer is an index into the heap;
  \<open>kmalloc\<close> extends the heap, so a new block never coincides with an existing one, and
  \<open>kfree\<close> leaves \<open>None\<close> behind.
\<close>

record kstate =
  current :: task_t
  pipe_heap :: "pipe_t option list"
  cb_heap :: "circular_buffer option list"

definition getpid :: "kstate \<Rightarrow> int" where
  "getpid s = task_id (current s)"

definition heap_get :: "'a option list \<Rightarrow> addr \<Rightarrow> 'a option" where
  "heap_get h a = (if a < length h then h ! a else None)"

definition kmalloc :: "'a option list \<Rightarrow> 'a \<Rightarrow> addr \<times> 'a option list" where
  "kmalloc h v = (length h, h @ [Some v])"

definition heap_set :: "'a option list \<Rightarrow> addr \<Rightarrow> 'a \<Rightarrow> 'a option list" where
  "heap_set h a v = h[a := Some v]"

definition kfree :: "'a option list \<Rightarrow> addr \<Rightarrow> 'a option list" where
  "kfree h a = h[a := None]"

section \<open>The operations of pipe.c\<close>

subsection \<open>\<open>pipe_create\<close> and \<open>pipe\<close>\<close>

text \<open>
  \<open>pipe_create\<close> (lines 7-31), statement by statement. \<open>memset\<close> leaves the \<open>cb\<close> field of
  both ends null (0) until lines 25-27 allocate the buffer for the write end and copy the
  pointer to the read end.
\<close>

definition pipe_create :: "kstate \<Rightarrow> (error + addr \<times> addr) \<times> kstate" where
  "pipe_create s =
     (case array_m_insert (array_m_create 32) (getpid s) of
        None \<Rightarrow> (Inl ArrayFull, s)
      | Some rpids \<Rightarrow>
          let (r, ph1) = kmalloc (pipe_heap s)
                 \<lparr>pipe_dir = READ, pipe_fd = fd_max (current s), pipe_pids = rpids, pipe_cb = 0\<rparr>;
              s1 = s\<lparr>current := (current s)\<lparr>fd_max := int_incr (fd_max (current s))\<rparr>,
                     pipe_heap := ph1\<rparr>
          in (case array_m_insert (array_m_create 32) (getpid s1) of
                None \<Rightarrow> (Inl ArrayFull, s1)
              | Some wpids \<Rightarrow>
                  let (w, ph2) = kmalloc (pipe_heap s1)
                         \<lparr>pipe_dir = WRITE, pipe_fd = fd_max (current s1), pipe_pids = wpids,
                          pipe_cb = 0\<rparr>;
                      s2 = s1\<lparr>current := (current s1)\<lparr>fd_max := int_incr (fd_max (current s1))\<rparr>,
                              pipe_heap := ph2\<rparr>;
                      (c, ch) = kmalloc (cb_heap s2) (cb_init 64 1)
                  in (case (heap_get (pipe_heap s2) r, heap_get (pipe_heap s2) w) of
                        (Some rp, Some wp) \<Rightarrow>
                          (Inr (r, w),
                           s2\<lparr>cb_heap := ch,
                              pipe_heap :=
                                heap_set (heap_set (pipe_heap s2) w (wp\<lparr>pipe_cb := c\<rparr>))
                                  r (rp\<lparr>pipe_cb := c\<rparr>)\<rparr>)
                      | _ \<Rightarrow> (Inl BadPointer, s2))))"

text \<open>
  \<open>pipe\<close> (lines 37-55). The result is the pair \<open>pipefd[0]\<close>, \<open>pipefd[1]\<close>. The
  \<open>ASSERT(0, ...)\<close> of line 50 halts the kernel: the model returns \<open>OutOfDescriptors\<close>
  with the state at that point, after \<open>pipe_create\<close> has run.
\<close>

definition pipe :: "kstate \<Rightarrow> (error + int \<times> int) \<times> kstate" where
  "pipe s =
     (case pipe_create s of
        (Inl e, s1) \<Rightarrow> (Inl e, s1)
      | (Inr (r, w), s1) \<Rightarrow>
          (case (heap_get (pipe_heap s1) r, heap_get (pipe_heap s1) w) of
             (Some rp, Some wp) \<Rightarrow>
               let pipefd = (pipe_fd rp, pipe_fd wp) in
               if array_m_size (pipes (current s1)) + 1 \<ge> max_size (pipes (current s1))
               then (Inl OutOfDescriptors, s1)
               else
                 (case array_m_insert (pipes (current s1)) r of
                    None \<Rightarrow> (Inl ArrayFull, s1)
                  | Some reg1 \<Rightarrow>
                      let s2 = s1\<lparr>current := (current s1)\<lparr>pipes := reg1\<rparr>\<rparr> in
                      (case array_m_insert (pipes (current s2)) w of
                         None \<Rightarrow> (Inl ArrayFull, s2)
                       | Some reg2 \<Rightarrow>
                           (Inr pipefd, s2\<lparr>current := (current s2)\<lparr>pipes := reg2\<rparr>\<rparr>)))
           | _ \<Rightarrow> (Inl BadPointer, s1)))"

subsection \<open>\<open>find_pipe\<close>\<close>

text \<open>
  \<open>find_pipe\<close> (lines 57-69): the registry is scanned from index 0, each entry is
  dereferenced to read its \<open>fd\<close>, and the first match is returned; \<open>Inr None\<close> is the
  null result.
\<close>

fun find_in :: "pipe_t option list \<Rightarrow> int \<Rightarrow> addr list \<Rightarrow> error + addr option" where
  "find_in h fd [] = Inr None"
| "find_in h fd (tmp # rest) =
     (case heap_get h tmp of
        None \<Rightarrow> Inl BadPointer
      | Some p \<Rightarrow> if pipe_fd p = fd then Inr (Some tmp) else find_in h fd rest)"

definition find_pipe :: "int \<Rightarrow> kstate \<Rightarrow> error + addr option" where
  "find_pipe fd s = find_in (pipe_heap s) fd (items (pipes (current s)))"

subsection \<open>\<open>pipe_read\<close>\<close>

text \<open>
  The loop of lines 88-102, from counter value \<open>i\<close>. The result is the value of \<open>i\<close>
  after the loop, the caller's buffer and the ring buffer. \<open>break\<close> leaves the loop without
  the increment, line 99 decrements before it.
\<close>

function read_loop ::
  "int \<Rightarrow> cbuf \<Rightarrow> int \<Rightarrow> int \<Rightarrow> circular_buffer \<Rightarrow> int \<times> cbuf \<times> circular_buffer" where
  "read_loop eof buf count i cb =
     (if i < count then
        (if cb_count cb = 0 then (i, buf, cb)
         else
           let (buf', cb') =
                 (case cb_pop_front cb of
                    None \<Rightarrow> (buf, cb)
                  | Some (b, cb1) \<Rightarrow> (buf(i := b), cb1))
           in if sint (buf' i) = eof then (i - 1, buf', cb')
              else read_loop eof buf' count (i + 1) cb')
      else (i, buf, cb))"
  by pat_completeness auto
termination
  by (relation "measure (\<lambda>(eof, buf, count, i, cb). nat (count - i))") auto

text \<open>
  \<open>pipe_read\<close> (lines 71-105). Both failures return \<open>-1\<close> in C; the model names them.
  With \<open>count <= 0\<close> the loop body never runs and the ring buffer is not dereferenced.
\<close>

definition pipe_read ::
  "int \<Rightarrow> int \<Rightarrow> cbuf \<Rightarrow> int \<Rightarrow> kstate \<Rightarrow> (error + int) \<times> cbuf \<times> kstate" where
  "pipe_read eof fd buf count s =
     (case find_pipe fd s of
        Inl e \<Rightarrow> (Inl e, buf, s)
      | Inr None \<Rightarrow> (Inl InvalidDescriptor, buf, s)
      | Inr (Some a) \<Rightarrow>
          (case heap_get (pipe_heap s) a of
             None \<Rightarrow> (Inl BadPointer, buf, s)
           | Some p \<Rightarrow>
               if pipe_dir p \<noteq> READ then (Inl WrongDirection, buf, s)
               else if \<not> 0 < count then (Inr 0, buf(0 := 0), s)
               else
                 (case heap_get (cb_heap s) (pipe_cb p) of
                    None \<Rightarrow> (Inl BadPointer, buf, s)
                  | Some cb \<Rightarrow>
                      let (i, buf', cb') = read_loop eof buf count 0 cb
                      in (Inr i, buf'(i := 0),
                          s\<lparr>cb_heap := heap_set (cb_heap s) (pipe_cb p) cb'\<rparr>))))"

subsection \<open>\<open>pipe_write\<close>\<close>

text \<open>The loop of lines 124-131, from counter value \<open>i\<close>.\<close>

function write_loop :: "cbuf \<Rightarrow> int \<Rightarrow> int \<Rightarrow> circular_buffer \<Rightarrow> int \<times> circular_buffer" where
  "write_loop buf count i cb =
     (if i < count then
        (if cb_count cb = cb_capacity cb then (i, cb)
         else write_loop buf count (i + 1)
                (case cb_push_back cb (buf i) of None \<Rightarrow> cb | Some cb' \<Rightarrow> cb'))
      else (i, cb))"
  by pat_completeness auto
termination
  by (relation "measure (\<lambda>(buf, count, i, cb). nat (count - i))") auto

text \<open>\<open>pipe_write\<close> (lines 107-134).\<close>

definition pipe_write :: "int \<Rightarrow> cbuf \<Rightarrow> int \<Rightarrow> kstate \<Rightarrow> (error + int) \<times> kstate" where
  "pipe_write fd buf count s =
     (case find_pipe fd s of
        Inl e \<Rightarrow> (Inl e, s)
      | Inr None \<Rightarrow> (Inl InvalidDescriptor, s)
      | Inr (Some a) \<Rightarrow>
          (case heap_get (pipe_heap s) a of
             None \<Rightarrow> (Inl BadPointer, s)
           | Some p \<Rightarrow>
               if pipe_dir p \<noteq> WRITE then (Inl WrongDirection, s)
               else if \<not> 0 < count then (Inr 0, s)
               else
                 (case heap_get (cb_heap s) (pipe_cb p) of
                    None \<Rightarrow> (Inl BadPointer, s)
                  | Some cb \<Rightarrow>
                      let (i, cb') = write_loop buf count 0 cb
                      in (Inr i, s\<lparr>cb_heap := heap_set (cb_heap s) (pipe_cb p) cb'\<rparr>))))"

subsection \<open>\<open>pipe_close\<close>\<close>

text \<open>
  Lines 159-191 of \<open>pipe_close\<close>, for the endpoint \<open>a\<close> that line 137 resolved: the current
  pid leaves the owner array, the endpoint leaves the registry, and an endpoint without
  owners is torn down. \<open>cb_free\<close> followed by \<open>kfree\<close> releases the ring buffer.
  The bare \<open>return;\<close> of lines 163 and 171 are the failures \<open>NotOwned\<close> and
  \<open>NotRegistered\<close>.
\<close>

definition close_teardown :: "addr \<Rightarrow> kstate \<Rightarrow> (error + unit) \<times> kstate" where
  "close_teardown a s =
     (case heap_get (pipe_heap s) a of
        None \<Rightarrow> (Inl BadPointer, s)
      | Some p \<Rightarrow>
          (case array_m_index (pipe_pids p) (getpid s) of
             None \<Rightarrow> (Inl NotOwned, s)
           | Some idx \<Rightarrow>
               let p1 = p\<lparr>pipe_pids := array_m_remove (pipe_pids p) idx\<rparr>;
                   s1 = s\<lparr>pipe_heap := heap_set (pipe_heap s) a p1\<rparr>
               in (case array_m_index (pipes (current s1)) a of
                     None \<Rightarrow> (Inl NotRegistered, s1)
                   | Some idx' \<Rightarrow>
                       let s2 = s1\<lparr>current := (current s1)
                                     \<lparr>pipes := array_m_remove (pipes (current s1)) idx'\<rparr>\<rparr>
                       in if array_m_size (pipe_pids p1) \<noteq> 0 then (Inr (), s2)
                          else if pipe_dir p1 = READ then
                            (case heap_get (cb_heap s2) (pipe_cb p1) of
                               None \<Rightarrow> (Inl BadPointer, s2)
                             | Some cb \<Rightarrow>
                                 (Inr (), s2\<lparr>cb_heap := kfree (cb_heap s2) (pipe_cb p1),
                                            pipe_heap := kfree (pipe_heap s2) a\<rparr>))
                          else (Inr (), s2\<lparr>pipe_heap := kfree (pipe_heap s2) a\<rparr>))))"

text \<open>
  \<open>pipe_close\<close> (lines 136-191). Lines 151-157 write the sentinel through \<open>pipe_write\<close>
  and ignore its result; a write that ran into unallocated memory stops the model.
\<close>

definition eof_buf :: "int \<Rightarrow> cbuf" where
  \<comment> \<open>the local \<open>char eof = EOF\<close> of line 155, seen through the pointer \<open>&eof\<close>\<close>
  "eof_buf eof = (\<lambda>i. word_of_int eof)"

definition pipe_close :: "int \<Rightarrow> int \<Rightarrow> kstate \<Rightarrow> (error + unit) \<times> kstate" where
  "pipe_close eof fd s =
     (case find_pipe fd s of
        Inl e \<Rightarrow> (Inl e, s)
      | Inr None \<Rightarrow> (Inl InvalidDescriptor, s)
      | Inr (Some a) \<Rightarrow>
          (case heap_get (pipe_heap s) a of
             None \<Rightarrow> (Inl BadPointer, s)
           | Some p \<Rightarrow>
               if pipe_dir p = WRITE \<and> array_m_size (pipes (current s)) = 1 then
                 (case pipe_write fd (eof_buf eof) 1 s of
                    (Inl BadPointer, s') \<Rightarrow> (Inl BadPointer, s')
                  | (_, s') \<Rightarrow> close_teardown a s')
               else close_teardown a s))"

section \<open>Notions used in the statements\<close>

text \<open>
  The state in which \<open>pipe_create\<close> leaves the kernel: two fresh endpoints that point
  to one fresh, empty ring buffer of 64 bytes, and a descriptor counter incremented twice.
\<close>

definition created :: "kstate \<Rightarrow> kstate" where
  "created s =
     s\<lparr>current := (current s)\<lparr>fd_max := int_incr (int_incr (fd_max (current s)))\<rparr>,
       pipe_heap := pipe_heap s @
         [Some \<lparr>pipe_dir = READ, pipe_fd = fd_max (current s),
                pipe_pids = \<lparr>items = [getpid s], max_size = 32\<rparr>,
                pipe_cb = length (cb_heap s)\<rparr>,
          Some \<lparr>pipe_dir = WRITE, pipe_fd = int_incr (fd_max (current s)),
                pipe_pids = \<lparr>items = [getpid s], max_size = 32\<rparr>,
                pipe_cb = length (cb_heap s)\<rparr>],
       cb_heap := cb_heap s @ [Some (cb_init 64 1)]\<rparr>"

text \<open>
  The ring buffer as a queue: the invariant of the spec's section 3 with the cursors
  made explicit, and the bytes waiting in the buffer, oldest first.
\<close>

definition cb_wf :: "circular_buffer \<Rightarrow> bool" where
  "cb_wf cb \<longleftrightarrow>
     cb_sz cb = 1 \<and> 0 < cb_capacity cb \<and> length (cb_storage cb) = cb_capacity cb \<and>
     cb_count cb \<le> cb_capacity cb \<and> cb_tail cb < cb_capacity cb \<and>
     cb_head cb = (cb_tail cb + cb_count cb) mod cb_capacity cb"

definition cb_contents :: "circular_buffer \<Rightarrow> byte list" where
  "cb_contents cb =
     map (\<lambda>k. cb_storage cb ! ((cb_tail cb + k) mod cb_capacity cb)) [0..<cb_count cb]"

text \<open>
  Every registered endpoint is allocated, and none carries one of the two descriptors
  that the next \<open>pipe\<close> will hand out. \<open>pipe\<close> takes descriptors from the counter
  \<open>fd_max\<close>, so this holds as long as the counter has not wrapped around onto a
  descriptor that is still registered; it is what makes a new descriptor resolve to the
  new endpoint.
\<close>

definition registry_ok :: "kstate \<Rightarrow> bool" where
  "registry_ok s \<longleftrightarrow>
     list_all (\<lambda>a. case heap_get (pipe_heap s) a of
                      None \<Rightarrow> False
                    | Some p \<Rightarrow> pipe_fd p \<noteq> fd_max (current s) \<and>
                               pipe_fd p \<noteq> int_incr (fd_max (current s)))
       (items (pipes (current s)))"

text \<open>
  A caller's buffer that holds the bytes \<open>xs\<close> from offset 0 on, and the first \<open>n\<close>
  bytes of a caller's buffer.
\<close>

definition buf_of :: "byte list \<Rightarrow> cbuf" where
  "buf_of xs = (\<lambda>i. if 0 \<le> i \<and> nat i < length xs then xs ! nat i else 0)"

definition bytes_of :: "cbuf \<Rightarrow> nat \<Rightarrow> byte list" where
  "bytes_of buf n = map (\<lambda>j. buf (int j)) [0..<n]"

subsection \<open>Concrete kernel states\<close>

text \<open>A task with pid 1, an empty registry of 16 slots, and nothing allocated.\<close>

definition boot :: kstate where
  "boot = \<lparr>current = \<lparr>task_id = 1, fd_max = 3, pipes = array_m_create 16\<rparr>,
            pipe_heap = [], cb_heap = []\<rparr>"

definition read_end :: "int list \<Rightarrow> pipe_t" where
  "read_end owners =
     \<lparr>pipe_dir = READ, pipe_fd = 3, pipe_pids = \<lparr>items = owners, max_size = 32\<rparr>,
      pipe_cb = 0\<rparr>"

definition write_end :: "int list \<Rightarrow> pipe_t" where
  "write_end owners =
     \<lparr>pipe_dir = WRITE, pipe_fd = 4, pipe_pids = \<lparr>items = owners, max_size = 32\<rparr>,
      pipe_cb = 0\<rparr>"

text \<open>
  Task 1 holding the registry \<open>reg\<close> (of \<open>cap\<close> slots), with the read end (descriptor 3)
  at address 0, the write end (descriptor 4) at address 1, and their ring buffer at
  address 0 of the buffer heap.
\<close>

definition task_with :: "addr list \<Rightarrow> nat \<Rightarrow> pipe_t \<Rightarrow> pipe_t \<Rightarrow> circular_buffer \<Rightarrow> kstate" where
  "task_with reg cap r w cb =
     \<lparr>current = \<lparr>task_id = 1, fd_max = 5, pipes = \<lparr>items = reg, max_size = cap\<rparr>\<rparr>,
      pipe_heap = [Some r, Some w], cb_heap = [Some cb]\<rparr>"

text \<open>A ring buffer of two bytes: empty, and holding two bytes.\<close>

definition cb_empty2 :: circular_buffer where
  "cb_empty2 = cb_init 2 1"

definition cb_full2 :: circular_buffer where
  "cb_full2 = \<lparr>cb_storage = [97, 98], cb_capacity = 2, cb_count = 2, cb_sz = 1,
               cb_head = 0, cb_tail = 0\<rparr>"

text \<open>A ring buffer of four bytes in which \<open>a\<close>, \<open>b\<close> and the byte 255 are waiting.\<close>

definition cb_ab_eof :: circular_buffer where
  "cb_ab_eof = \<lparr>cb_storage = [97, 98, 255, 0], cb_capacity = 4, cb_count = 3, cb_sz = 1,
                cb_head = 3, cb_tail = 0\<rparr>"


definition run_as :: "task_t \<Rightarrow> kstate \<Rightarrow> kstate" where
  "run_as t s = s\<lparr>current := t\<rparr>"

text \<open>
  Task 1 with the two ends of a pipe (descriptors 3 and 4, full buffer) in its registry
  and the descriptor counter back at 3, as after a wrap-around of the counter.
\<close>

definition stale :: kstate where
  "stale = run_as \<lparr>task_id = 1, fd_max = 3, pipes = \<lparr>items = [0, 1], max_size = 16\<rparr>\<rparr>
             (task_with [] 16 (read_end [1]) (write_end [1]) cb_full2)"





section \<open>Basic facts\<close>

lemma find_in_Some:
  "find_in h fd xs = Inr (Some a) \<Longrightarrow>
     a \<in> set xs \<and> (\<exists>p. heap_get h a = Some p \<and> pipe_fd p = fd)"
  by (induction xs) (auto split: option.splits if_splits)

lemma first_index_None: "first_index xs x = None \<longleftrightarrow> x \<notin> set xs"
  by (induction xs) auto

lemma first_index_Some: "first_index xs x = Some i \<Longrightarrow> i < length xs \<and> xs ! i = x"
  by (induction xs arbitrary: i) (auto split: if_splits)

lemma heap_get_kfree: "heap_get (kfree h a) b = (if b = a then None else heap_get h b)"
  by (auto simp: heap_get_def kfree_def)

lemma heap_get_heap_set:
  "heap_get (heap_set h a v) b = (if b = a \<and> a < length h then Some v else heap_get h b)"
  by (auto simp: heap_get_def heap_set_def)

lemma heap_get_length: "heap_get h a = Some v \<Longrightarrow> a < length h"
  by (auto simp: heap_get_def split: if_splits)

lemma heap_set_same: "heap_get h a = Some v \<Longrightarrow> heap_set h a v = h"
  by (auto simp: heap_get_def heap_set_def list_update_same_conv split: if_splits)

lemma direction_cases: "d \<noteq> READ \<longleftrightarrow> d = WRITE"
  by (cases d) auto

section \<open>The ring buffer is a bounded queue\<close>

lemma length_cb_contents [simp]: "length (cb_contents cb) = cb_count cb"
  by (simp add: cb_contents_def)

lemma cb_init_wf: "0 < n \<Longrightarrow> cb_wf (cb_init n 1)"
  by (simp add: cb_wf_def cb_init_def)

lemma cb_init_contents: "cb_contents (cb_init n 1) = []"
  by (simp add: cb_contents_def cb_init_def)

lemma mod_shift_neq:
  fixes t k n c :: nat
  assumes "k < n" "n < c"
  shows "(t + k) mod c \<noteq> (t + n) mod c"
proof
  assume eq: "(t + k) mod c = (t + n) mod c"
  have "c dvd n - k"
    using mod_eq_dvd_iff_nat [of "t + k" "t + n" c] assms eq [symmetric] by simp
  then have "c \<le> n - k" using assms by (intro dvd_imp_le) simp_all
  with assms show False by simp
qed

lemma cb_push_back_wf:
  assumes "cb_wf cb" and "cb_count cb < cb_capacity cb"
  shows "\<exists>cb'. cb_push_back cb b = Some cb' \<and> cb_wf cb' \<and>
           cb_contents cb' = cb_contents cb @ [b] \<and>
           cb_capacity cb' = cb_capacity cb \<and> cb_count cb' = Suc (cb_count cb)"
proof -
  let ?c = "cb_capacity cb"
  let ?cb' = "cb\<lparr>cb_storage := (cb_storage cb)[cb_head cb := b],
                    cb_head := (cb_head cb + 1) mod ?c,
                    cb_count := cb_count cb + 1\<rparr>"
  from assms have push: "cb_push_back cb b = Some ?cb'"
    by (simp add: cb_push_back_def)
  from assms have hd: "cb_head cb = (cb_tail cb + cb_count cb) mod ?c"
    and len: "length (cb_storage cb) = ?c" and pos: "0 < ?c"
    by (simp_all add: cb_wf_def)
  have wf: "cb_wf ?cb'"
    using assms by (simp add: cb_wf_def mod_Suc_eq)
  have old: "(cb_storage cb)[cb_head cb := b] ! ((cb_tail cb + k) mod ?c) =
             cb_storage cb ! ((cb_tail cb + k) mod ?c)" if "k < cb_count cb" for k
    using mod_shift_neq [OF that assms(2), of "cb_tail cb"] by (simp add: hd)
  have new: "(cb_storage cb)[cb_head cb := b] ! ((cb_tail cb + cb_count cb) mod ?c) = b"
    using pos by (simp add: hd len)
  have "cb_contents ?cb' = cb_contents cb @ [b]"
    by (simp add: cb_contents_def old new)
  with push wf show ?thesis by simp
qed

lemma cb_pop_front_wf:
  assumes "cb_wf cb" and "cb_contents cb = x # xs"
  shows "\<exists>cb'. cb_pop_front cb = Some (x, cb') \<and> cb_wf cb' \<and> cb_contents cb' = xs \<and>
           cb_capacity cb' = cb_capacity cb"
proof -
  let ?c = "cb_capacity cb"
  let ?cb' = "cb\<lparr>cb_tail := (cb_tail cb + 1) mod ?c, cb_count := cb_count cb - 1\<rparr>"
  from assms(2) have cnt: "cb_count cb = Suc (length xs)"
    using length_cb_contents [of cb] by simp
  from assms have tl: "cb_tail cb < ?c" by (simp add: cb_wf_def)
  have x: "cb_storage cb ! cb_tail cb = x"
    using assms(2) cnt tl by (simp add: cb_contents_def upt_conv_Cons del: upt_Suc)
  have pop: "cb_pop_front cb = Some (x, ?cb')"
    using cnt x by (simp add: cb_pop_front_def)
  have wf: "cb_wf ?cb'"
    using assms(1) cnt by (simp add: cb_wf_def mod_simps)
  have "map (\<lambda>k. cb_storage cb ! ((cb_tail cb + k) mod ?c)) [0..<Suc (length xs)] = x # xs"
    using assms(2) cnt by (simp add: cb_contents_def)
  then have "map (\<lambda>k. cb_storage cb ! ((cb_tail cb + Suc k) mod ?c)) [0..<length xs] = xs"
    by (simp add: upt_conv_Cons map_Suc_upt [symmetric] comp_def del: upt_Suc)
  then have "cb_contents ?cb' = xs"
    using cnt by (simp add: cb_contents_def mod_simps)
  with pop wf show ?thesis by simp
qed



lemma write_loop_fills:
  assumes "int (cb_count cb) = i" and "cb_count cb \<le> cb_capacity cb"
    and "int (cb_capacity cb) < n"
  shows "\<exists>cb'. write_loop buf n i cb = (int (cb_capacity cb), cb') \<and>
           cb_count cb' = cb_capacity cb \<and> cb_capacity cb' = cb_capacity cb"
  using assms
proof (induction k \<equiv> "cb_capacity cb - cb_count cb" arbitrary: i cb)
  case 0
  then have full: "cb_count cb = cb_capacity cb" and lt: "i < n"
    by simp_all
  have "write_loop buf n i cb = (i, cb)"
    using full lt by (subst write_loop.simps) simp
  with 0 full show ?case by simp
next
  case (Suc k)
  let ?cb1 = "cb\<lparr>cb_storage := (cb_storage cb)[cb_head cb := buf i],
                  cb_head := (cb_head cb + 1) mod cb_capacity cb,
                  cb_count := cb_count cb + 1\<rparr>"
  from Suc.hyps(2) have room: "cb_count cb \<noteq> cb_capacity cb" and lt': "cb_count cb < cb_capacity cb"
    by simp_all
  from lt' Suc.prems have lt: "i < n"
    by simp
  have push: "cb_push_back cb (buf i) = Some ?cb1"
    using room by (simp add: cb_push_back_def)
  have step: "write_loop buf n i cb = write_loop buf n (i + 1) ?cb1"
    using lt room push by (subst write_loop.simps) simp
  have k: "k = cb_capacity ?cb1 - cb_count ?cb1"
    using Suc.hyps(2) by simp
  have a: "int (cb_count ?cb1) = i + 1" "cb_count ?cb1 \<le> cb_capacity ?cb1"
    "int (cb_capacity ?cb1) < n"
    using Suc.prems lt' by simp_all
  have c1: "cb_capacity ?cb1 = cb_capacity cb"
    by simp
  from Suc.hyps(1) [OF k a]
  obtain cb' where "write_loop buf n (i + 1) ?cb1 = (int (cb_capacity ?cb1), cb')"
    and "cb_count cb' = cb_capacity ?cb1" and "cb_capacity cb' = cb_capacity ?cb1"
    by blast
  then have "write_loop buf n i cb = (int (cb_capacity cb), cb')"
    and "cb_count cb' = cb_capacity cb" and "cb_capacity cb' = cb_capacity cb"
    by (simp_all only: step c1)
  then show ?case
    by (intro exI [of _ cb'] conjI)
qed

lemma write_loop_full:
  "cb_count cb = cb_capacity cb \<Longrightarrow> write_loop buf n 0 cb = (0, cb)"
  by (subst write_loop.simps) simp

lemma write_loop_fits:
  assumes "cb_wf cb" and "nat (n - i) \<le> cb_capacity cb - cb_count cb"
  shows "\<exists>cb'. write_loop buf n i cb = (max i n, cb') \<and> cb_wf cb' \<and>
           cb_contents cb' = cb_contents cb @ map (\<lambda>j. buf (i + int j)) [0..<nat (n - i)] \<and>
           cb_capacity cb' = cb_capacity cb"
  using assms
proof (induction m \<equiv> "nat (n - i)" arbitrary: i cb)
  case 0
  then have "\<not> i < n" by simp
  then have "write_loop buf n i cb = (max i n, cb)"
    by (subst write_loop.simps) (simp add: max_def)
  with 0 show ?case by simp
next
  case (Suc m)
  from Suc.hyps(2) have lt: "i < n" and m: "m = nat (n - (i + 1))"
    by simp_all
  from Suc.hyps(2) Suc.prems(2) have room: "cb_count cb < cb_capacity cb"
    by simp
  from cb_push_back_wf [OF Suc.prems(1) room, of "buf i"]
  obtain cb1 where push: "cb_push_back cb (buf i) = Some cb1" and wf1: "cb_wf cb1"
    and c1: "cb_contents cb1 = cb_contents cb @ [buf i]"
    and cap1: "cb_capacity cb1 = cb_capacity cb" and cnt1: "cb_count cb1 = Suc (cb_count cb)"
    by blast
  have fit1: "nat (n - (i + 1)) \<le> cb_capacity cb1 - cb_count cb1"
    using Suc.hyps(2) Suc.prems(2) by (simp add: cap1 cnt1)
  from Suc.hyps(1) [OF m wf1 fit1]
  obtain cb' where res: "write_loop buf n (i + 1) cb1 = (max (i + 1) n, cb')"
    and wf': "cb_wf cb'"
    and c': "cb_contents cb' =
               cb_contents cb1 @ map (\<lambda>j. buf (i + 1 + int j)) [0..<nat (n - (i + 1))]"
    and cap': "cb_capacity cb' = cb_capacity cb1"
    by blast
  have step: "write_loop buf n i cb = write_loop buf n (i + 1) cb1"
    using lt room push by (subst write_loop.simps) simp
  have idx: "map (\<lambda>j. buf (i + int j)) [0..<Suc m] =
             buf i # map (\<lambda>j. buf (i + 1 + int j)) [0..<m]"
    by (simp add: upt_conv_Cons map_Suc_upt [symmetric] comp_def add.assoc del: upt_Suc)
  from Suc.hyps(2) have nm: "nat (n - i) = Suc m" by simp
  have "cb_contents cb' = cb_contents cb @ (buf i # map (\<lambda>j. buf (i + 1 + int j)) [0..<m])"
    using c' c1 m by simp
  then have cont: "cb_contents cb' = cb_contents cb @ map (\<lambda>j. buf (i + int j)) [0..<nat (n - i)]"
    by (simp only: nm idx)
  from lt have mx: "max (i + 1) n = max i n" by simp
  have r: "write_loop buf n i cb = (max i n, cb')"
    by (simp only: step res mx)
  have cap: "cb_capacity cb' = cb_capacity cb"
    by (simp only: cap' cap1)
  from r wf' cont cap show ?case
    by (intro exI [of _ cb'] conjI)
qed

lemma read_loop_clean:
  assumes "cb_wf cb"
    and "\<forall>x \<in> set (take (nat (n - i)) (cb_contents cb)). sint x \<noteq> eof"
  shows "\<exists>buf' cb'. read_loop eof buf n i cb =
             (i + int (min (nat (n - i)) (cb_count cb)), buf', cb') \<and>
           cb_wf cb' \<and> cb_contents cb' = drop (nat (n - i)) (cb_contents cb) \<and>
           (\<forall>j < min (nat (n - i)) (cb_count cb). buf' (i + int j) = cb_contents cb ! j) \<and>
           (\<forall>j. j < i \<longrightarrow> buf' j = buf j)"
  using assms
proof (induction xs \<equiv> "cb_contents cb" arbitrary: i buf cb)
  case Nil
  have "length ([] :: byte list) = length (cb_contents cb)"
    using Nil.hyps by (rule arg_cong)
  then have "cb_count cb = 0"
    by simp
  then have "read_loop eof buf n i cb = (i, buf, cb)"
    by (subst read_loop.simps) simp
  with Nil \<open>cb_count cb = 0\<close> show ?case by simp
next
  case (Cons x xs)
  have "length (x # xs) = length (cb_contents cb)"
    using Cons.hyps(2) by (rule arg_cong)
  then have cnt: "cb_count cb = Suc (length xs)"
    by simp
  show ?case
  proof (cases "i < n")
    case False
    then have "read_loop eof buf n i cb = (i, buf, cb)"
      by (subst read_loop.simps) simp
    with False Cons.prems show ?thesis by simp
  next
    case True
    from cb_pop_front_wf [OF Cons.prems(1) Cons.hyps(2) [symmetric]]
    obtain cb1 where pop: "cb_pop_front cb = Some (x, cb1)" and wf1: "cb_wf cb1"
      and c1: "cb_contents cb1 = xs" and cap1: "cb_capacity cb1 = cb_capacity cb"
      by blast
    from True obtain m where m: "nat (n - i) = Suc m" "nat (n - (i + 1)) = m"
      by (cases "nat (n - i)") auto
    from Cons.prems(2) Cons.hyps(2) [symmetric] m
    have x: "sint x \<noteq> eof" and rest: "\<forall>y \<in> set (take (nat (n - (i + 1))) (cb_contents cb1)). sint y \<noteq> eof"
      by (simp_all add: c1)
    have step: "read_loop eof buf n i cb = read_loop eof (buf(i := x)) n (i + 1) cb1"
      using True cnt pop x by (subst read_loop.simps) simp
    from Cons.hyps(1) [OF c1 [symmetric] wf1 rest, of "buf(i := x)"]
    obtain buf' cb' where res: "read_loop eof (buf(i := x)) n (i + 1) cb1 =
             (i + 1 + int (min (nat (n - (i + 1))) (cb_count cb1)), buf', cb')"
      and wf': "cb_wf cb'"
      and c': "cb_contents cb' = drop (nat (n - (i + 1))) (cb_contents cb1)"
      and got: "\<forall>j < min (nat (n - (i + 1))) (cb_count cb1). buf' (i + 1 + int j) = cb_contents cb1 ! j"
      and kept: "\<forall>j. j < i + 1 \<longrightarrow> buf' j = (buf(i := x)) j"
      by blast
    have cnt1: "cb_count cb1 = length xs"
      using length_cb_contents [of cb1] c1 by simp
    have n1: "i + 1 + int (min (nat (n - (i + 1))) (cb_count cb1)) =
              i + int (min (nat (n - i)) (cb_count cb))"
      using m cnt cnt1 by simp
    have d: "cb_contents cb' = drop (nat (n - i)) (cb_contents cb)"
      using c' c1 m Cons.hyps(2) [symmetric] by simp
    have g: "buf' (i + int j) = cb_contents cb ! j" if "j < min (nat (n - i)) (cb_count cb)" for j
    proof (cases j)
      case 0
      with kept show ?thesis by (simp add: Cons.hyps(2) [symmetric])
    next
      case (Suc j')
      with that m cnt cnt1 have "j' < min (nat (n - (i + 1))) (cb_count cb1)"
        by simp
      with got have "buf' (i + 1 + int j') = cb_contents cb1 ! j'" by blast
      with Suc show ?thesis
        by (simp add: Cons.hyps(2) [symmetric] c1 add.assoc)
    qed
    have k: "\<forall>j. j < i \<longrightarrow> buf' j = buf j"
      using kept by simp
    have r: "read_loop eof buf n i cb = (i + int (min (nat (n - i)) (cb_count cb)), buf', cb')"
      using res by (simp only: step n1)
    have g': "\<forall>j < min (nat (n - i)) (cb_count cb). buf' (i + int j) = cb_contents cb ! j"
      using g by blast
    from r wf' d g' k show ?thesis
      by (intro exI [of _ buf'] exI [of _ cb'] conjI)
  qed
qed

section \<open>Creation\<close>

lemma pipe_create_eq:
  "pipe_create s =
     (Inr (length (pipe_heap s), Suc (length (pipe_heap s))), created s)"
  by (simp add: pipe_create_def created_def array_m_insert_def array_m_create_def
      array_m_size_def kmalloc_def getpid_def heap_get_def heap_set_def nth_append
      list_update_append)

lemma pipe_full:
  "max_size (pipes (current s)) \<le> array_m_size (pipes (current s)) + 1 \<Longrightarrow>
   pipe s = (Inl OutOfDescriptors, created s)"
  by (simp add: pipe_def pipe_create_eq created_def heap_get_def nth_append)

lemma pipe_room:
  "array_m_size (pipes (current s)) + 1 < max_size (pipes (current s)) \<Longrightarrow>
   pipe s = (Inr (fd_max (current s), int_incr (fd_max (current s))),
             (created s)\<lparr>current := (current (created s))
                \<lparr>pipes := (pipes (current s))
                   \<lparr>items := items (pipes (current s)) @
                       [length (pipe_heap s), Suc (length (pipe_heap s))]\<rparr>\<rparr>\<rparr>)"
  by (simp add: pipe_def pipe_create_eq created_def heap_get_def nth_append
      array_m_insert_def array_m_size_def)

text \<open>
  C8. When the registry cannot take two more endpoints, \<open>pipe\<close> stops with
  \<open>OutOfDescriptors\<close> (the abort of line 50). At that point the registry is what it was,
  and every block that was allocated before the call is unchanged: the two endpoints and
  the buffer that \<open>pipe_create\<close> made lie behind the old heaps.
\<close>

theorem create_out_of_descriptors:
  assumes "max_size (pipes (current s)) < array_m_size (pipes (current s)) + 2"
  shows "fst (pipe s) = Inl OutOfDescriptors \<and>
         pipes (current (snd (pipe s))) = pipes (current s) \<and>
         take (length (pipe_heap s)) (pipe_heap (snd (pipe s))) = pipe_heap s \<and>
         take (length (cb_heap s)) (cb_heap (snd (pipe s))) = cb_heap s"
proof -
  from assms have "max_size (pipes (current s)) \<le> array_m_size (pipes (current s)) + 1"
    by simp
  then have "pipe s = (Inl OutOfDescriptors, created s)"
    by (rule pipe_full)
  then show ?thesis
    by (simp add: created_def)
qed

theorem create_out_of_descriptors_witness:
  "max_size (pipes (current (task_with [0, 1] 3 (read_end [1]) (write_end [1]) cb_empty2)))
     < array_m_size (pipes (current (task_with [0, 1] 3 (read_end [1]) (write_end [1]) cb_empty2))) + 2 \<and>
   fst (pipe (task_with [0, 1] 3 (read_end [1]) (write_end [1]) cb_empty2)) = Inl OutOfDescriptors \<and>
   pipes (current (snd (pipe (task_with [0, 1] 3 (read_end [1]) (write_end [1]) cb_empty2))))
     = pipes (current (task_with [0, 1] 3 (read_end [1]) (write_end [1]) cb_empty2)) \<and>
   take (length (pipe_heap (task_with [0, 1] 3 (read_end [1]) (write_end [1]) cb_empty2)))
     (pipe_heap (snd (pipe (task_with [0, 1] 3 (read_end [1]) (write_end [1]) cb_empty2))))
     = pipe_heap (task_with [0, 1] 3 (read_end [1]) (write_end [1]) cb_empty2) \<and>
   take (length (cb_heap (task_with [0, 1] 3 (read_end [1]) (write_end [1]) cb_empty2)))
     (cb_heap (snd (pipe (task_with [0, 1] 3 (read_end [1]) (write_end [1]) cb_empty2))))
     = cb_heap (task_with [0, 1] 3 (read_end [1]) (write_end [1]) cb_empty2)"
proof -
  have h: "max_size (pipes (current (task_with [0, 1] 3 (read_end [1]) (write_end [1]) cb_empty2)))
     < array_m_size (pipes (current (task_with [0, 1] 3 (read_end [1]) (write_end [1]) cb_empty2))) + 2"
    by (simp add: task_with_def array_m_size_def)
  from create_out_of_descriptors [OF h] h show ?thesis
    by blast
qed

section \<open>Direction checks\<close>

text \<open>
  C6. A descriptor that resolves to a READ endpoint makes \<open>pipe_write\<close> fail with
  \<open>WrongDirection\<close>, and one that resolves to a WRITE endpoint makes \<open>pipe_read\<close> fail
  with \<open>WrongDirection\<close>; in both cases the whole kernel state, the ring buffer included,
  is returned as it was (and the caller's buffer, for the read).
\<close>

theorem direction_enforced:
  assumes "find_pipe fd s = Inr (Some a)" and "heap_get (pipe_heap s) a = Some p"
  shows "(pipe_dir p = READ \<longrightarrow> pipe_write fd buf count s = (Inl WrongDirection, s)) \<and>
         (pipe_dir p = WRITE \<longrightarrow> pipe_read eof fd buf count s = (Inl WrongDirection, buf, s))"
  using assms by (simp add: pipe_write_def pipe_read_def)

theorem direction_enforced_witness:
  "pipe_write 3 (\<lambda>i. 7) 2 (task_with [0, 1] 16 (read_end [1]) (write_end [1]) cb_empty2)
     = (Inl WrongDirection, task_with [0, 1] 16 (read_end [1]) (write_end [1]) cb_empty2) \<and>
   pipe_read (- 1) 4 (\<lambda>i. 7) 2 (task_with [0, 1] 16 (read_end [1]) (write_end [1]) cb_empty2)
     = (Inl WrongDirection, \<lambda>i. 7, task_with [0, 1] 16 (read_end [1]) (write_end [1]) cb_empty2)"
proof -
  let ?s = "task_with [0, 1] 16 (read_end [1]) (write_end [1]) cb_empty2"
  have r: "find_pipe 3 ?s = Inr (Some 0)" "heap_get (pipe_heap ?s) 0 = Some (read_end [1])"
    by (simp_all add: find_pipe_def task_with_def heap_get_def read_end_def write_end_def)
  have w: "find_pipe 4 ?s = Inr (Some 1)" "heap_get (pipe_heap ?s) 1 = Some (write_end [1])"
    by (simp_all add: find_pipe_def task_with_def heap_get_def read_end_def write_end_def)
  from direction_enforced [OF r, of "\<lambda>i. 7" 2 "- 1"]
       direction_enforced [OF w, of "\<lambda>i. 7" 2 "- 1"]
  show ?thesis by (simp add: read_end_def write_end_def)
qed

section \<open>Closing an endpoint\<close>

lemma write_loop_one:
  "write_loop buf 1 0 cb =
     (if cb_count cb = cb_capacity cb then (0, cb)
      else (1, case cb_push_back cb (buf 0) of None \<Rightarrow> cb | Some cb' \<Rightarrow> cb'))"
  by (simp add: write_loop.simps [of buf 1 0] write_loop.simps [of buf 1 1])

lemma pipe_write_one:
  assumes "find_pipe fd s = Inr (Some a)" and "heap_get (pipe_heap s) a = Some p"
    and "pipe_dir p = WRITE" and "heap_get (cb_heap s) (pipe_cb p) = Some cb"
  shows "pipe_write fd buf 1 s =
           (Inr (if cb_count cb = cb_capacity cb then 0 else 1),
            s\<lparr>cb_heap := heap_set (cb_heap s) (pipe_cb p)
                 (case cb_push_back cb (buf 0) of None \<Rightarrow> cb | Some cb' \<Rightarrow> cb')\<rparr>)"
  using assms by (simp add: pipe_write_def write_loop_one cb_push_back_def)

lemma teardown_last_owner:
  assumes p: "heap_get (pipe_heap s) a = Some p"
    and own: "items (pipe_pids p) = [getpid s]"
    and reg: "a \<in> set (items (pipes (current s)))"
    and cb: "heap_get (cb_heap s) (pipe_cb p) = Some cb"
  shows "fst (close_teardown a s) = Inr () \<and>
         heap_get (pipe_heap (snd (close_teardown a s))) a = None \<and>
         cb_heap (snd (close_teardown a s)) =
           (if pipe_dir p = READ then kfree (cb_heap s) (pipe_cb p) else cb_heap s)"
proof -
  from reg obtain j where j: "array_m_index (pipes (current s)) a = Some j"
    by (cases "first_index (items (pipes (current s))) a")
       (auto simp: array_m_index_def first_index_None)
  have i: "array_m_index (pipe_pids p) (getpid s) = Some 0"
    by (simp add: array_m_index_def own)
  show ?thesis
    using p i j cb own
    by (simp add: close_teardown_def Let_def array_m_remove_def array_m_size_def
        heap_get_kfree heap_get_heap_set)
qed

lemma teardown_write_keeps_buffers:
  assumes "heap_get (pipe_heap s) a = Some p" and "pipe_dir p = WRITE"
  shows "cb_heap (snd (close_teardown a s)) = cb_heap s"
  using assms
  by (simp add: close_teardown_def Let_def split: option.splits)

lemma find_pipe_registered:
  assumes "find_pipe fd s = Inr (Some a)"
  shows "a \<in> set (items (pipes (current s)))"
  using find_in_Some [of "pipe_heap s" fd _ a] assms by (simp add: find_pipe_def)

lemma singleton_registry:
  assumes "find_pipe fd s = Inr (Some a)" and "array_m_size (pipes (current s)) = 1"
  shows "items (pipes (current s)) = [a]"
proof -
  from assms(2) obtain b where b: "items (pipes (current s)) = [b]"
    by (cases "items (pipes (current s))") (auto simp: array_m_size_def)
  with find_pipe_registered [OF assms(1)] show ?thesis by simp
qed

lemma teardown_empties_singleton_registry:
  assumes p: "heap_get (pipe_heap s) a = Some p"
    and reg: "items (pipes (current s)) = [a]"
    and own: "getpid s \<in> set (items (pipe_pids p))"
  shows "items (pipes (current (snd (close_teardown a s)))) = []"
proof -
  from own obtain idx where idx: "array_m_index (pipe_pids p) (getpid s) = Some idx"
    by (cases "first_index (items (pipe_pids p)) (getpid s)")
       (auto simp: array_m_index_def first_index_None)
  have j: "array_m_index (pipes (current s)) a = Some 0"
    by (simp add: array_m_index_def reg)
  show ?thesis
    using p idx j reg
    by (simp add: close_teardown_def Let_def array_m_remove_def split: option.splits)
qed

text \<open>
  C2. A close by the only owner of an endpoint whose ring buffer is allocated returns
  normally and destroys the endpoint; afterwards the ring buffer is released exactly when
  the endpoint was a READ endpoint. A WRITE endpoint is freed and leaves the buffer
  allocated.
\<close>

theorem close_last_owner_teardown:
  assumes f: "find_pipe fd s = Inr (Some a)" and p: "heap_get (pipe_heap s) a = Some p"
    and own: "items (pipe_pids p) = [getpid s]"
    and cb: "heap_get (cb_heap s) (pipe_cb p) = Some cb"
  shows "fst (pipe_close eof fd s) = Inr () \<and>
         heap_get (pipe_heap (snd (pipe_close eof fd s))) a = None \<and>
         (heap_get (cb_heap (snd (pipe_close eof fd s))) (pipe_cb p) = None
            \<longleftrightarrow> pipe_dir p = READ)"
proof (cases "pipe_dir p = WRITE \<and> array_m_size (pipes (current s)) = 1")
  case True
  define cb' where "cb' = (case cb_push_back cb (eof_buf eof 0) of None \<Rightarrow> cb | Some c \<Rightarrow> c)"
  define s' where "s' = s\<lparr>cb_heap := heap_set (cb_heap s) (pipe_cb p) cb'\<rparr>"
  have w: "pipe_write fd (eof_buf eof) 1 s =
             (Inr (if cb_count cb = cb_capacity cb then 0 else 1), s')"
    using pipe_write_one [OF f p _ cb] True by (simp add: s'_def cb'_def)
  have c: "pipe_close eof fd s = close_teardown a s'"
    using f p True w by (simp add: pipe_close_def)
  have reg: "a \<in> set (items (pipes (current s')))"
    using find_in_Some [of "pipe_heap s" fd _ a] f by (simp add: find_pipe_def s'_def)
  have cb2: "heap_get (cb_heap s') (pipe_cb p) = Some cb'"
    using heap_get_length [OF cb] by (simp add: s'_def heap_get_heap_set)
  have "heap_get (pipe_heap s') a = Some p" "items (pipe_pids p) = [getpid s']"
    using p own by (simp_all add: s'_def getpid_def)
  from teardown_last_owner [OF this reg cb2] True cb2
  show ?thesis by (simp add: c)
next
  case False
  have c: "pipe_close eof fd s = close_teardown a s"
    using f p False by (auto simp add: pipe_close_def)
  have reg: "a \<in> set (items (pipes (current s)))"
    using find_in_Some [of "pipe_heap s" fd _ a] f by (simp add: find_pipe_def)
  from teardown_last_owner [OF p own reg cb] cb
  show ?thesis by (auto simp add: c heap_get_kfree direction_cases)
qed

theorem close_last_owner_teardown_witness:
  "fst (pipe_close (- 1) 3 (task_with [0, 1] 16 (read_end [1]) (write_end [1]) cb_empty2)) = Inr () \<and>
   heap_get (pipe_heap (snd (pipe_close (- 1) 3
       (task_with [0, 1] 16 (read_end [1]) (write_end [1]) cb_empty2)))) 0 = None \<and>
   heap_get (cb_heap (snd (pipe_close (- 1) 3
       (task_with [0, 1] 16 (read_end [1]) (write_end [1]) cb_empty2)))) 0 = None \<and>
   fst (pipe_close (- 1) 4 (task_with [0, 1] 16 (read_end [1]) (write_end [1]) cb_empty2)) = Inr () \<and>
   heap_get (pipe_heap (snd (pipe_close (- 1) 4
       (task_with [0, 1] 16 (read_end [1]) (write_end [1]) cb_empty2)))) 1 = None \<and>
   heap_get (cb_heap (snd (pipe_close (- 1) 4
       (task_with [0, 1] 16 (read_end [1]) (write_end [1]) cb_empty2)))) 0 \<noteq> None"
proof -
  let ?s = "task_with [0, 1] 16 (read_end [1]) (write_end [1]) cb_empty2"
  have r: "find_pipe 3 ?s = Inr (Some 0)" "heap_get (pipe_heap ?s) 0 = Some (read_end [1])"
    "items (pipe_pids (read_end [1])) = [getpid ?s]"
    "heap_get (cb_heap ?s) (pipe_cb (read_end [1])) = Some cb_empty2"
    by (simp_all add: find_pipe_def task_with_def heap_get_def read_end_def write_end_def
        getpid_def)
  have w: "find_pipe 4 ?s = Inr (Some 1)" "heap_get (pipe_heap ?s) 1 = Some (write_end [1])"
    "items (pipe_pids (write_end [1])) = [getpid ?s]"
    "heap_get (cb_heap ?s) (pipe_cb (write_end [1])) = Some cb_empty2"
    by (simp_all add: find_pipe_def task_with_def heap_get_def read_end_def write_end_def
        getpid_def)
  from close_last_owner_teardown [OF r, of "- 1"] close_last_owner_teardown [OF w, of "- 1"]
  show ?thesis by (simp add: read_end_def write_end_def)
qed

text \<open>
  The return of line 171. In lines 159-191 the owner array is changed (line 165) before the
  registry is searched (line 168), so a run of these lines that ends in \<open>NotRegistered\<close>
  hands back a state in which the current pid has left the owner array.
\<close>

lemma teardown_not_registered:
  assumes "fst (close_teardown a s) = Inl NotRegistered"
  shows "\<exists>p idx. heap_get (pipe_heap s) a = Some p \<and>
           array_m_index (pipe_pids p) (getpid s) = Some idx \<and>
           snd (close_teardown a s) =
             s\<lparr>pipe_heap := heap_set (pipe_heap s) a
                  (p\<lparr>pipe_pids := array_m_remove (pipe_pids p) idx\<rparr>)\<rparr> \<and>
           heap_get (pipe_heap (snd (close_teardown a s))) a \<noteq> heap_get (pipe_heap s) a"
proof -
  from assms obtain p where p: "heap_get (pipe_heap s) a = Some p"
    by (auto simp: close_teardown_def split: option.splits)
  with assms obtain idx where idx: "array_m_index (pipe_pids p) (getpid s) = Some idx"
    by (auto simp: close_teardown_def split: option.splits)
  from idx have lt: "idx < length (items (pipe_pids p))"
    by (simp add: array_m_index_def first_index_Some)
  have ne: "array_m_remove (pipe_pids p) idx \<noteq> pipe_pids p"
  proof
    assume "array_m_remove (pipe_pids p) idx = pipe_pids p"
    then have "length (items (array_m_remove (pipe_pids p) idx)) = length (items (pipe_pids p))"
      by simp
    with lt show False by (simp add: array_m_remove_def)
  qed
  have reg: "array_m_index (pipes (current s)) a = None"
    using assms p idx
    by (auto simp: close_teardown_def Let_def split: option.splits if_splits)
  have "snd (close_teardown a s) =
             s\<lparr>pipe_heap := heap_set (pipe_heap s) a
                  (p\<lparr>pipe_pids := array_m_remove (pipe_pids p) idx\<rparr>)\<rparr>"
    using p idx reg by (simp add: close_teardown_def Let_def)
  moreover have "heap_get (heap_set (pipe_heap s) a
                  (p\<lparr>pipe_pids := array_m_remove (pipe_pids p) idx\<rparr>)) a \<noteq> Some p"
    using heap_get_length [OF p] ne
    by (auto simp add: heap_get_heap_set dest!: arg_cong [where f = pipe_pids])
  ultimately show ?thesis using p idx by simp
qed


text \<open>
  \<open>pipe_close\<close> itself never takes that return: line 168 searches the registry for the
  pointer that line 137 has just read from it, and nothing in between changes the
  registry.
\<close>

lemma pipe_write_current: "current (snd (pipe_write fd buf n s)) = current s"
  by (simp add: pipe_write_def case_prod_beta split: sum.splits option.splits)

lemma teardown_registered:
  "a \<in> set (items (pipes (current s))) \<Longrightarrow> fst (close_teardown a s) \<noteq> Inl NotRegistered"
  by (auto simp add: close_teardown_def Let_def array_m_index_def first_index_None
      split: option.splits)

lemma find_in_Inl: "find_in h fd xs = Inl e \<Longrightarrow> e = BadPointer"
  by (induction xs) (auto split: option.splits if_splits)

lemma pipe_close_never_not_registered: "fst (pipe_close eof fd s) \<noteq> Inl NotRegistered"
proof (cases "find_pipe fd s")
  case (Inl e)
  then have "e = BadPointer"
    by (simp add: find_pipe_def find_in_Inl)
  with Inl show ?thesis
    by (simp add: pipe_close_def)
next
  case (Inr r)
  show ?thesis
  proof (cases r)
    case None
    with Inr show ?thesis by (simp add: pipe_close_def)
  next
    case (Some a)
    with Inr have f: "find_pipe fd s = Inr (Some a)" by simp
    have reg: "a \<in> set (items (pipes (current s)))"
      by (rule find_pipe_registered [OF f])
    obtain r s' where w: "pipe_write fd (eof_buf eof) 1 s = (r, s')"
      by (cases "pipe_write fd (eof_buf eof) 1 s")
    then have "current s' = current s"
      using pipe_write_current [of fd "eof_buf eof" 1 s] by simp
    with reg have "a \<in> set (items (pipes (current s')))"
      by simp
    from teardown_registered [OF reg] teardown_registered [OF this] f w show ?thesis
      by (auto simp add: pipe_close_def split: option.splits sum.splits error.splits)
  qed
qed

text \<open>
  C1 as stated fails when the ring buffer is full. Process 1 holds only the write end
  (descriptor 4) in its registry and the two-byte buffer holds \<open>a\<close>, \<open>b\<close>: the close
  returns normally, and the buffer afterwards holds \<open>a\<close>, \<open>b\<close> and no sentinel.
\<close>

theorem sentinel_not_written_when_full:
  "find_pipe 4 (task_with [1] 16 (read_end [2]) (write_end [1]) cb_full2) = Inr (Some 1) \<and>
   heap_get (pipe_heap (task_with [1] 16 (read_end [2]) (write_end [1]) cb_full2)) 1
     = Some (write_end [1]) \<and>
   pipe_dir (write_end [1]) = WRITE \<and>
   array_m_size (pipes (current (task_with [1] 16 (read_end [2]) (write_end [1]) cb_full2))) = 1 \<and>
   fst (pipe_close (- 1) 4 (task_with [1] 16 (read_end [2]) (write_end [1]) cb_full2)) = Inr () \<and>
   map_option cb_contents (heap_get (cb_heap (snd (pipe_close (- 1) 4
       (task_with [1] 16 (read_end [2]) (write_end [1]) cb_full2)))) 0) = Some [97, 98]"
  by (simp add: pipe_close_def find_pipe_def task_with_def heap_get_def read_end_def
      write_end_def array_m_size_def pipe_write_def write_loop_one eof_buf_def
      cb_full2_def cb_push_back_def heap_set_def close_teardown_def
      array_m_index_def array_m_remove_def getpid_def Let_def cb_contents_def kfree_def upt_rec)


text \<open>
  C1, amended. Closing a WRITE endpoint while the registry of the current task has exactly
  one entry and the ring buffer is allocated and not full: the sentinel write is issued on
  the state as it is on entry, where the registry and the owner array are intact, so the
  descriptor resolves and the write returns 1; the buffer then holds the result of pushing
  the sentinel, which for a well-formed buffer is the old contents followed by the
  sentinel; the removals of lines 159-191 run on the state after that write and leave the
  buffer as the write left it. After the close the descriptor is gone from the registry:
  the same write fails with \<open>InvalidDescriptor\<close>, as it would have, had the removal come
  first.
\<close>

theorem sentinel_written_before_removal:
  assumes f: "find_pipe fd s = Inr (Some a)" and p: "heap_get (pipe_heap s) a = Some p"
    and d: "pipe_dir p = WRITE" and one: "array_m_size (pipes (current s)) = 1"
    and cb: "heap_get (cb_heap s) (pipe_cb p) = Some cb"
    and room: "cb_count cb < cb_capacity cb"
  shows "fst (pipe_write fd (eof_buf eof) 1 s) = Inr 1 \<and>
         cb_push_back cb (word_of_int eof) \<noteq> None \<and>
         heap_get (cb_heap (snd (pipe_write fd (eof_buf eof) 1 s))) (pipe_cb p) =
           cb_push_back cb (word_of_int eof) \<and>
         pipe_close eof fd s = close_teardown a (snd (pipe_write fd (eof_buf eof) 1 s)) \<and>
         heap_get (cb_heap (snd (pipe_close eof fd s))) (pipe_cb p) =
           cb_push_back cb (word_of_int eof) \<and>
         (cb_wf cb \<longrightarrow>
            map_option cb_contents (heap_get (cb_heap (snd (pipe_close eof fd s))) (pipe_cb p)) =
              Some (cb_contents cb @ [word_of_int eof])) \<and>
         (getpid s \<in> set (items (pipe_pids p)) \<longrightarrow>
            fst (pipe_write fd (eof_buf eof) 1 (snd (pipe_close eof fd s))) = Inl InvalidDescriptor \<and>
            fst (pipe_write fd (eof_buf eof) 1 (snd (close_teardown a s))) = Inl InvalidDescriptor)"
proof -
  from room obtain cb' where push: "cb_push_back cb (word_of_int eof) = Some cb'"
    by (simp add: cb_push_back_def)
  define s' where "s' = s\<lparr>cb_heap := heap_set (cb_heap s) (pipe_cb p) cb'\<rparr>"
  have w: "pipe_write fd (eof_buf eof) 1 s = (Inr 1, s')"
    using pipe_write_one [OF f p d cb, of "eof_buf eof"] room push
    by (simp add: s'_def eof_buf_def)
  have g: "heap_get (cb_heap s') (pipe_cb p) = Some cb'"
    using heap_get_length [OF cb] by (simp add: s'_def heap_get_heap_set)
  have c: "pipe_close eof fd s = close_teardown a s'"
    using f p d one w by (simp add: pipe_close_def)
  have p': "heap_get (pipe_heap s') a = Some p"
    using p by (simp add: s'_def)
  have k: "cb_heap (snd (close_teardown a s')) = cb_heap s'"
    by (rule teardown_write_keeps_buffers [OF p' d])
  have q: "map_option cb_contents (Some cb') = Some (cb_contents cb @ [word_of_int eof])"
    if "cb_wf cb"
    using cb_push_back_wf [OF that room, of "word_of_int eof"] push by auto
  have reg: "items (pipes (current s)) = [a]"
    by (rule singleton_registry [OF f one])
  have late: "fst (pipe_write fd (eof_buf eof) 1 (snd (close_teardown a s))) = Inl InvalidDescriptor"
    if "getpid s \<in> set (items (pipe_pids p))"
    using teardown_empties_singleton_registry [OF p reg that]
    by (simp add: pipe_write_def find_pipe_def)
  have after: "fst (pipe_write fd (eof_buf eof) 1 (snd (close_teardown a s'))) = Inl InvalidDescriptor"
    if "getpid s \<in> set (items (pipe_pids p))"
  proof -
    have "items (pipes (current s')) = [a]" "getpid s' \<in> set (items (pipe_pids p))"
      using reg that by (simp_all add: s'_def getpid_def)
    from teardown_empties_singleton_registry [OF p' this] show ?thesis
      by (simp add: pipe_write_def find_pipe_def)
  qed
  show ?thesis
    using w g c k late after q push by simp
qed

theorem sentinel_written_before_removal_witness:
  "cb_count cb_empty2 < cb_capacity cb_empty2 \<and>
   fst (pipe_write 4 (eof_buf (- 1)) 1 (task_with [1] 16 (read_end [2]) (write_end [1]) cb_empty2)) = Inr 1 \<and>
   cb_push_back cb_empty2 (word_of_int (- 1)) \<noteq> None \<and>
   heap_get (cb_heap (snd (pipe_write 4 (eof_buf (- 1)) 1 (task_with [1] 16 (read_end [2]) (write_end [1]) cb_empty2))))
       (pipe_cb (write_end [1])) =
     cb_push_back cb_empty2 (word_of_int (- 1)) \<and>
   pipe_close (- 1) 4 (task_with [1] 16 (read_end [2]) (write_end [1]) cb_empty2) =
     close_teardown 1 (snd (pipe_write 4 (eof_buf (- 1)) 1 (task_with [1] 16 (read_end [2]) (write_end [1]) cb_empty2))) \<and>
   heap_get (cb_heap (snd (pipe_close (- 1) 4 (task_with [1] 16 (read_end [2]) (write_end [1]) cb_empty2))))
       (pipe_cb (write_end [1])) =
     cb_push_back cb_empty2 (word_of_int (- 1)) \<and>
   map_option cb_contents (heap_get (cb_heap (snd (pipe_close (- 1) 4 (task_with [1] 16 (read_end [2]) (write_end [1]) cb_empty2))))
       (pipe_cb (write_end [1]))) =
     Some (cb_contents cb_empty2 @ [word_of_int (- 1)]) \<and>
   fst (pipe_write 4 (eof_buf (- 1)) 1 (snd (pipe_close (- 1) 4 (task_with [1] 16 (read_end [2]) (write_end [1]) cb_empty2))))
     = Inl InvalidDescriptor \<and>
   fst (pipe_write 4 (eof_buf (- 1)) 1 (snd (close_teardown 1 (task_with [1] 16 (read_end [2]) (write_end [1]) cb_empty2))))
     = Inl InvalidDescriptor"
proof -
  let ?s = "(task_with [1] 16 (read_end [2]) (write_end [1]) cb_empty2)"
  have h: "find_pipe 4 ?s = Inr (Some 1)" "heap_get (pipe_heap ?s) 1 = Some (write_end [1])"
    "pipe_dir (write_end [1]) = WRITE" "array_m_size (pipes (current ?s)) = 1"
    "heap_get (cb_heap ?s) (pipe_cb (write_end [1])) = Some cb_empty2"
    "cb_count cb_empty2 < cb_capacity cb_empty2"
    by (simp_all add: find_pipe_def task_with_def heap_get_def read_end_def write_end_def
        array_m_size_def cb_empty2_def cb_init_def)
  have o: "getpid ?s \<in> set (items (pipe_pids (write_end [1])))"
    by (simp add: getpid_def task_with_def write_end_def)
  have wf: "cb_wf cb_empty2"
    unfolding cb_empty2_def by (rule cb_init_wf) simp
  from sentinel_written_before_removal [OF h, of "- 1"] o wf h(6) show ?thesis
    by blast
qed









text \<open>
  The behaviour of \<open>pipe_close\<close> when other owners remain and the test of line 152 does
  not fire: normal return, buffers untouched, the endpoint allocated with the current pid
  taken out of its owner array.
\<close>

lemma close_with_remaining_owners:
  assumes f: "find_pipe fd s = Inr (Some a)" and p: "heap_get (pipe_heap s) a = Some p"
    and idx: "array_m_index (pipe_pids p) (getpid s) = Some idx"
    and rem: "array_m_size (array_m_remove (pipe_pids p) idx) \<noteq> 0"
    and gate: "\<not> (pipe_dir p = WRITE \<and> array_m_size (pipes (current s)) = 1)"
  shows "fst (pipe_close eof fd s) = Inr () \<and>
         cb_heap (snd (pipe_close eof fd s)) = cb_heap s \<and>
         heap_get (pipe_heap (snd (pipe_close eof fd s))) a =
           Some (p\<lparr>pipe_pids := array_m_remove (pipe_pids p) idx\<rparr>)"
proof -
  have c: "pipe_close eof fd s = close_teardown a s"
    using f p gate by (auto simp add: pipe_close_def)
  from find_pipe_registered [OF f] obtain j where j: "array_m_index (pipes (current s)) a = Some j"
    by (cases "first_index (items (pipes (current s))) a")
       (auto simp: array_m_index_def first_index_None)
  show ?thesis
    using p idx j rem heap_get_length [OF p]
    by (simp add: c close_teardown_def Let_def heap_get_heap_set)
qed

text \<open>
  C7, at a concrete state. Processes 1 and 2 both own the WRITE endpoint (descriptor 4);
  it is the only entry in the registry of process 1, and the ring buffer is empty. The
  close by process 1 returns normally and keeps the endpoint for process 2, and it has
  pushed the sentinel byte into the shared ring buffer.
\<close>

theorem close_shared_writer_pushes_sentinel:
  "fst (pipe_close (- 1) 4 (task_with [1] 16 (read_end [2]) (write_end [1, 2]) cb_empty2)) = Inr () \<and>
   heap_get (pipe_heap (snd (pipe_close (- 1) 4 (task_with [1] 16 (read_end [2]) (write_end [1, 2]) cb_empty2)))) 1 = Some (write_end [2]) \<and>
   map_option cb_contents (heap_get (cb_heap (task_with [1] 16 (read_end [2]) (write_end [1, 2]) cb_empty2)) 0) = Some [] \<and>
   map_option cb_contents (heap_get (cb_heap (snd (pipe_close (- 1) 4 (task_with [1] 16 (read_end [2]) (write_end [1, 2]) cb_empty2)))) 0) = Some [255]"
  by (simp add: pipe_close_def find_pipe_def task_with_def heap_get_def read_end_def
      write_end_def array_m_size_def pipe_write_def write_loop_one eof_buf_def
      cb_empty2_def cb_init_def cb_push_back_def heap_set_def close_teardown_def
      array_m_index_def array_m_remove_def getpid_def Let_def cb_contents_def)

section \<open>Writing and reading\<close>

lemma find_pipe_cb_heap: "find_pipe fd (s\<lparr>cb_heap := h\<rparr>) = find_pipe fd s"
  by (simp add: find_pipe_def)

lemma pipe_write_nonpos:
  assumes "find_pipe fd s = Inr (Some a)" and "heap_get (pipe_heap s) a = Some p"
    and "pipe_dir p = WRITE" and "\<not> 0 < n"
  shows "pipe_write fd buf n s = (Inr 0, s)"
  using assms by (simp add: pipe_write_def)

lemma pipe_write_pos:
  assumes "find_pipe fd s = Inr (Some a)" and "heap_get (pipe_heap s) a = Some p"
    and "pipe_dir p = WRITE" and "0 < n"
    and "heap_get (cb_heap s) (pipe_cb p) = Some cb"
    and "write_loop buf n 0 cb = (k, cb')"
  shows "pipe_write fd buf n s =
           (Inr k, s\<lparr>cb_heap := heap_set (cb_heap s) (pipe_cb p) cb'\<rparr>)"
  using assms by (simp add: pipe_write_def)

text \<open>
  C5. One call of \<open>pipe_write\<close> with capacity + K bytes (K at least 1) on a WRITE
  descriptor whose ring buffer is allocated and empty returns exactly the capacity of the
  buffer, and whatever write is issued on that descriptor next returns 0. The buffer that
  \<open>pipe\<close> makes has capacity 64.
\<close>

theorem write_beyond_capacity:
  assumes f: "find_pipe fd s = Inr (Some a)" and p: "heap_get (pipe_heap s) a = Some p"
    and d: "pipe_dir p = WRITE" and cb: "heap_get (cb_heap s) (pipe_cb p) = Some cb"
    and empty: "cb_count cb = 0" and K: "1 \<le> K"
  shows "fst (pipe_write fd buf (int (cb_capacity cb) + K) s) = Inr (int (cb_capacity cb)) \<and>
         fst (pipe_write fd buf' n' (snd (pipe_write fd buf (int (cb_capacity cb) + K) s)))
           = Inr 0"
proof -
  define n where "n = int (cb_capacity cb) + K"
  from K have pos: "0 < n" and lt: "int (cb_capacity cb) < n"
    by (simp_all add: n_def)
  from empty have e: "int (cb_count cb) = 0" "cb_count cb \<le> cb_capacity cb"
    by simp_all
  from write_loop_fills [OF e lt, of buf]
  obtain cb' where wl: "write_loop buf n 0 cb = (int (cb_capacity cb), cb')"
    and c1: "cb_count cb' = cb_capacity cb" and c2: "cb_capacity cb' = cb_capacity cb"
    by blast
  have full: "cb_count cb' = cb_capacity cb'"
    by (simp only: c1 c2)
  define s' where "s' = s\<lparr>cb_heap := heap_set (cb_heap s) (pipe_cb p) cb'\<rparr>"
  have w: "pipe_write fd buf n s = (Inr (int (cb_capacity cb)), s')"
    unfolding s'_def by (rule pipe_write_pos [OF f p d pos cb wl])
  have g: "heap_get (cb_heap s') (pipe_cb p) = Some cb'"
    using heap_get_length [OF cb] by (simp add: s'_def heap_get_heap_set)
  have f': "find_pipe fd s' = Inr (Some a)"
    using f by (simp add: s'_def find_pipe_cb_heap)
  have p': "heap_get (pipe_heap s') a = Some p"
    using p by (simp add: s'_def)
  have "pipe_write fd buf' n' s' = (Inr 0, s')"
  proof (cases "0 < n'")
    case False
    then show ?thesis by (rule pipe_write_nonpos [OF f' p' d])
  next
    case True
    have "pipe_write fd buf' n' s' =
            (Inr 0, s'\<lparr>cb_heap := heap_set (cb_heap s') (pipe_cb p) cb'\<rparr>)"
      by (rule pipe_write_pos [OF f' p' d True g write_loop_full [OF full]])
    then show ?thesis
      by (simp add: heap_set_same [OF g])
  qed
  with w show ?thesis
    by (simp add: n_def)
qed


lemma pipe_boot:
  "pipe boot =
     (Inr (3, 4),
      \<lparr>current = \<lparr>task_id = 1, fd_max = 5, pipes = \<lparr>items = [0, 1], max_size = 16\<rparr>\<rparr>,
       pipe_heap = [Some (read_end [1]), Some (write_end [1])],
       cb_heap = [Some (cb_init 64 1)]\<rparr>)"
  by (simp add: pipe_room boot_def created_def array_m_create_def array_m_size_def
      getpid_def read_end_def write_end_def int_incr_def)

theorem write_beyond_capacity_witness:
  "cb_count (cb_init 64 1) = 0 \<and> (1::int) \<le> 5 \<and>
   fst (pipe_write 4 (buf_of []) (int (cb_capacity (cb_init 64 1)) + 5) (snd (pipe boot)))
     = Inr (int (cb_capacity (cb_init 64 1))) \<and>
   fst (pipe_write 4 (buf_of []) 1
          (snd (pipe_write 4 (buf_of []) (int (cb_capacity (cb_init 64 1)) + 5) (snd (pipe boot)))))
     = Inr 0 \<and>
   int (cb_capacity (cb_init 64 1)) = 64"
proof -
  let ?s = "snd (pipe boot)"
  have h: "find_pipe 4 ?s = Inr (Some 1)" "heap_get (pipe_heap ?s) 1 = Some (write_end [1])"
    "pipe_dir (write_end [1]) = WRITE"
    "heap_get (cb_heap ?s) (pipe_cb (write_end [1])) = Some (cb_init 64 1)"
    by (simp_all add: pipe_boot find_pipe_def heap_get_def read_end_def write_end_def)
  have e: "cb_count (cb_init 64 1) = 0" "(1::int) \<le> 5"
    by (simp_all add: cb_init_def)
  have c: "int (cb_capacity (cb_init 64 1)) = 64"
    by (simp add: cb_init_def)
  note t = write_beyond_capacity [OF h e, of "buf_of []" "buf_of []" 1]
  from e(1) e(2) t [THEN conjunct1] t [THEN conjunct2] c show ?thesis
    by (intro conjI)
qed

lemma heap_get_append: "heap_get h a = Some v \<Longrightarrow> heap_get (h @ h') a = Some v"
  by (auto simp: heap_get_def nth_append split: if_splits)

lemma find_in_skip:
  assumes "list_all (\<lambda>a. case heap_get h a of None \<Rightarrow> False | Some p \<Rightarrow> pipe_fd p \<noteq> fd) xs"
  shows "find_in (h @ h') fd (xs @ ys) = find_in (h @ h') fd ys"
  using assms
proof (induction xs)
  case Nil
  show ?case by simp
next
  case (Cons x xs)
  from Cons.prems obtain p where p: "heap_get h x = Some p" and ne: "pipe_fd p \<noteq> fd"
    by (auto split: option.splits)
  from Cons.prems have "list_all (\<lambda>a. case heap_get h a of None \<Rightarrow> False | Some p \<Rightarrow> pipe_fd p \<noteq> fd) xs"
    by simp
  with Cons.IH have "find_in (h @ h') fd (xs @ ys) = find_in (h @ h') fd ys"
    by simp
  with heap_get_append [OF p, of h'] ne show ?case
    by simp
qed

lemma int_incr_neq: "int_incr x \<noteq> x"
  by (simp add: int_incr_def)

lemma pipe_resolves:
  assumes ok: "registry_ok s" and cr: "pipe s = (Inr (rfd, wfd), s1)"
  shows "\<exists>r w. find_pipe rfd s1 = Inr (Some (length (pipe_heap s))) \<and>
           heap_get (pipe_heap s1) (length (pipe_heap s)) = Some r \<and> pipe_dir r = READ \<and>
           find_pipe wfd s1 = Inr (Some (Suc (length (pipe_heap s)))) \<and>
           heap_get (pipe_heap s1) (Suc (length (pipe_heap s))) = Some w \<and> pipe_dir w = WRITE \<and>
           pipe_cb r = length (cb_heap s) \<and> pipe_cb w = length (cb_heap s) \<and>
           heap_get (cb_heap s1) (length (cb_heap s)) = Some (cb_init 64 1)"
proof -
  have room: "array_m_size (pipes (current s)) + 1 < max_size (pipes (current s))"
  proof (rule ccontr)
    assume "\<not> ?thesis"
    then have "max_size (pipes (current s)) \<le> array_m_size (pipes (current s)) + 1"
      by simp
    from pipe_full [OF this] cr show False by simp
  qed
  let ?f = "fd_max (current s)"
  let ?R = "\<lparr>pipe_dir = READ, pipe_fd = ?f,
             pipe_pids = \<lparr>items = [getpid s], max_size = 32\<rparr>, pipe_cb = length (cb_heap s)\<rparr>"
  let ?W = "\<lparr>pipe_dir = WRITE, pipe_fd = int_incr ?f,
             pipe_pids = \<lparr>items = [getpid s], max_size = 32\<rparr>, pipe_cb = length (cb_heap s)\<rparr>"
  from pipe_room [OF room] cr have fds: "rfd = ?f" "wfd = int_incr ?f"
    and ph: "pipe_heap s1 = pipe_heap s @ [Some ?R, Some ?W]"
    and ch: "cb_heap s1 = cb_heap s @ [Some (cb_init 64 1)]"
    and reg: "items (pipes (current s1)) =
                items (pipes (current s)) @ [length (pipe_heap s), Suc (length (pipe_heap s))]"
    by (simp_all add: created_def)
  from ok have skr: "list_all (\<lambda>a. case heap_get (pipe_heap s) a of None \<Rightarrow> False
                                  | Some p \<Rightarrow> pipe_fd p \<noteq> rfd) (items (pipes (current s)))"
    and skw: "list_all (\<lambda>a. case heap_get (pipe_heap s) a of None \<Rightarrow> False
                                  | Some p \<Rightarrow> pipe_fd p \<noteq> wfd) (items (pipes (current s)))"
    by (auto simp add: registry_ok_def fds list_all_iff split: option.splits)
  have gr: "heap_get (pipe_heap s1) (length (pipe_heap s)) = Some ?R"
    and gw: "heap_get (pipe_heap s1) (Suc (length (pipe_heap s))) = Some ?W"
    by (simp_all add: ph heap_get_def nth_append)
  have fr: "find_pipe rfd s1 = Inr (Some (length (pipe_heap s)))"
    unfolding find_pipe_def reg ph find_in_skip [OF skr]
    using gr by (simp add: ph fds)
  have fw: "find_pipe wfd s1 = Inr (Some (Suc (length (pipe_heap s))))"
    unfolding find_pipe_def reg ph find_in_skip [OF skw]
    using gr gw int_incr_neq [of ?f] by (simp add: ph fds)
  have gc: "heap_get (cb_heap s1) (length (cb_heap s)) = Some (cb_init 64 1)"
    by (simp add: ch heap_get_def)
  from fr gr fw gw gc show ?thesis
    by simp
qed

lemma pipe_read_nonpos:
  assumes "find_pipe fd s = Inr (Some a)" and "heap_get (pipe_heap s) a = Some p"
    and "pipe_dir p = READ" and "\<not> 0 < n"
  shows "pipe_read eof fd buf n s = (Inr 0, buf(0 := 0), s)"
  using assms by (simp add: pipe_read_def)

lemma pipe_read_pos:
  assumes "find_pipe fd s = Inr (Some a)" and "heap_get (pipe_heap s) a = Some p"
    and "pipe_dir p = READ" and "0 < n"
    and "heap_get (cb_heap s) (pipe_cb p) = Some cb"
    and "read_loop eof buf n 0 cb = (k, buf', cb')"
  shows "pipe_read eof fd buf n s =
           (Inr k, buf'(k := 0), s\<lparr>cb_heap := heap_set (cb_heap s) (pipe_cb p) cb'\<rparr>)"
  using assms by (simp add: pipe_read_def)

lemma bytes_of_buf_of: "map (\<lambda>j. buf_of xs (int j)) [0..<length xs] = xs"
  by (rule nth_equalityI) (simp_all add: buf_of_def)

lemma registry_ok_boot: "registry_ok boot"
  by (simp add: registry_ok_def boot_def array_m_create_def)

lemma write_two_bytes:
  "write_loop buf 2 0 cb =
     (if cb_count cb = cb_capacity cb then (0, cb)
      else let cb1 = (case cb_push_back cb (buf 0) of None \<Rightarrow> cb | Some c \<Rightarrow> c) in
        if cb_count cb1 = cb_capacity cb1 then (1, cb1)
        else (2, case cb_push_back cb1 (buf 1) of None \<Rightarrow> cb1 | Some c \<Rightarrow> c))"
  by (simp add: write_loop.simps [of buf 2 0] write_loop.simps [of buf 2 1]
      write_loop.simps [of buf 2 2] Let_def)

lemma pipe_stale:
  "pipe stale =
     (Inr (3, 4),
      \<lparr>current = \<lparr>task_id = 1, fd_max = 5, pipes = \<lparr>items = [0, 1, 2, 3], max_size = 16\<rparr>\<rparr>,
       pipe_heap = [Some (read_end [1]), Some (write_end [1]),
                    Some ((read_end [1])\<lparr>pipe_cb := 1\<rparr>), Some ((write_end [1])\<lparr>pipe_cb := 1\<rparr>)],
       cb_heap = [Some cb_full2, Some (cb_init 64 1)]\<rparr>)"
  by (simp add: pipe_room stale_def run_as_def task_with_def created_def array_m_size_def
      getpid_def read_end_def write_end_def int_incr_def)

lemma roundtrip_sentinel_eval:
  "registry_ok boot \<and> pipe boot = (Inr (3, 4), snd (pipe boot)) \<and>
   length [255, 97 :: byte] \<le> 64 \<and>
   fst (pipe_write 4 (buf_of [255, 97]) 2 (snd (pipe boot))) = Inr 2 \<and>
   fst (pipe_read (- 1) 3 (buf_of []) 2
          (snd (pipe_write 4 (buf_of [255, 97]) 2 (snd (pipe boot))))) = Inr (- 1)"
proof -
  have h: "registry_ok boot" "pipe boot = (Inr (3, 4), snd (pipe boot))"
    by (simp_all add: registry_ok_boot pipe_boot)
  have w: "pipe_write 4 (buf_of [255, 97]) 2 (snd (pipe boot)) =
             (Inr 2,
              (snd (pipe boot))\<lparr>cb_heap := [Some ((cb_init 64 1)
                 \<lparr>cb_storage := (cb_storage (cb_init 64 1))[0 := 255, 1 := 97],
                  cb_head := 2, cb_count := 2\<rparr>)]\<rparr>)"
    by (simp add: pipe_boot pipe_write_def find_pipe_def heap_get_def read_end_def
        write_end_def write_two_bytes cb_push_back_def cb_init_def heap_set_def buf_of_def)
  have r: "fst (pipe_read (- 1) 3 (buf_of []) 2
             ((snd (pipe boot))\<lparr>cb_heap := [Some ((cb_init 64 1)
                 \<lparr>cb_storage := (cb_storage (cb_init 64 1))[0 := 255, 1 := 97],
                  cb_head := 2, cb_count := 2\<rparr>)]\<rparr>)) = Inr (- 1)"
    by (simp add: pipe_boot pipe_read_def find_pipe_def heap_get_def read_end_def
        write_end_def read_loop.simps [of _ _ 2 0] cb_pop_front_def cb_init_def)
  from h w r show ?thesis
    by simp
qed

lemma roundtrip_stale_eval:
  "\<not> registry_ok stale \<and> pipe stale = (Inr (3, 4), snd (pipe stale)) \<and>
   fst (pipe_write 4 (buf_of [120]) 1 (snd (pipe stale))) = Inr 0"
proof -
  have a: "\<not> registry_ok stale"
    by (simp add: registry_ok_def stale_def run_as_def task_with_def heap_get_def read_end_def)
  have b: "pipe stale = (Inr (3, 4), snd (pipe stale))"
    by (simp add: pipe_stale)
  have c: "fst (pipe_write 4 (buf_of [120]) 1 (snd (pipe stale))) = Inr 0"
    by (simp add: pipe_stale pipe_write_def find_pipe_def heap_get_def read_end_def
        write_end_def write_loop_one cb_full2_def)
  from a b c show ?thesis by simp
qed

text \<open>
  C3 as stated fails in two ways. On the pipe made by \<open>pipe\<close> in the state \<open>boot\<close>, the
  two bytes 255, 97 are written, and the read of two bytes stops on the first one, which
  is the sentinel, and returns \<open>-1\<close>. On the pipe made in the state \<open>stale\<close>, the new
  descriptor 4 resolves to the older endpoint that carries the same descriptor, whose
  buffer is full, and the write of one byte returns 0.
\<close>

theorem roundtrip_counterexample:
  "(registry_ok boot \<and> pipe boot = (Inr (3, 4), snd (pipe boot)) \<and>
    length [255, 97 :: byte] \<le> 64 \<and>
    fst (pipe_write 4 (buf_of [255, 97]) 2 (snd (pipe boot))) = Inr 2 \<and>
    fst (pipe_read (- 1) 3 (buf_of []) 2
           (snd (pipe_write 4 (buf_of [255, 97]) 2 (snd (pipe boot))))) = Inr (- 1)) \<and>
   (pipe stale = (Inr (3, 4), snd (pipe stale)) \<and>
    length [120 :: byte] \<le> 64 \<and>
    fst (pipe_write 4 (buf_of [120]) 1 (snd (pipe stale))) = Inr 0)"
  using roundtrip_sentinel_eval roundtrip_stale_eval by simp

text \<open>
  C3, amended. Let \<open>pipe\<close> succeed in a state where every registered endpoint is allocated
  and none carries one of the two descriptors that \<open>pipe\<close> hands out, and let \<open>xs\<close> be at
  most 64 bytes, none of which reads as the sentinel. Writing \<open>xs\<close> through the new WRITE
  descriptor returns the length of \<open>xs\<close>, reading that many bytes through the new READ
  descriptor returns the same length, and the caller's buffer then holds \<open>xs\<close>, in order.
\<close>

theorem write_then_read_roundtrip:
  assumes ok: "registry_ok s" and cr: "pipe s = (Inr (rfd, wfd), s1)"
    and len: "length xs \<le> 64" and clean: "\<forall>x \<in> set xs. sint x \<noteq> eof"
  shows "fst (pipe_write wfd (buf_of xs) (int (length xs)) s1) = Inr (int (length xs)) \<and>
         fst (pipe_read eof rfd out (int (length xs))
                (snd (pipe_write wfd (buf_of xs) (int (length xs)) s1)))
           = Inr (int (length xs)) \<and>
         bytes_of (fst (snd (pipe_read eof rfd out (int (length xs))
                (snd (pipe_write wfd (buf_of xs) (int (length xs)) s1))))) (length xs) = xs"
proof -
  from pipe_resolves [OF ok cr] obtain r w
    where fr: "find_pipe rfd s1 = Inr (Some (length (pipe_heap s)))"
      and gr: "heap_get (pipe_heap s1) (length (pipe_heap s)) = Some r"
      and dr: "pipe_dir r = READ"
      and fw: "find_pipe wfd s1 = Inr (Some (Suc (length (pipe_heap s))))"
      and gw: "heap_get (pipe_heap s1) (Suc (length (pipe_heap s))) = Some w"
      and dw: "pipe_dir w = WRITE"
      and cbr: "pipe_cb r = length (cb_heap s)" and cbw: "pipe_cb w = length (cb_heap s)"
      and gc: "heap_get (cb_heap s1) (length (cb_heap s)) = Some (cb_init 64 1)"
    by blast
  define n where "n = int (length xs)"
  show ?thesis
  proof (cases "0 < n")
    case False
    then have e: "xs = []" by (simp add: n_def)
    have w: "pipe_write wfd (buf_of xs) n s1 = (Inr 0, s1)"
      by (rule pipe_write_nonpos [OF fw gw dw False])
    have rd: "pipe_read eof rfd out n s1 = (Inr 0, out(0 := 0), s1)"
      by (rule pipe_read_nonpos [OF fr gr dr False])
    from w rd e show ?thesis
      by (simp add: n_def bytes_of_def)
  next
    case True
    let ?c0 = "cb_init 64 1"
    have wf0: "cb_wf ?c0"
      by (rule cb_init_wf) simp
    have fits: "nat (n - 0) \<le> cb_capacity ?c0 - cb_count ?c0"
      using len by (simp add: cb_init_def n_def)
    from write_loop_fits [OF wf0 fits, of "buf_of xs"]
    obtain c1 where wl: "write_loop (buf_of xs) n 0 ?c0 = (max 0 n, c1)"
      and wf1: "cb_wf c1"
      and cont: "cb_contents c1 =
                   cb_contents ?c0 @ map (\<lambda>j. buf_of xs (0 + int j)) [0..<nat (n - 0)]"
      by blast
    from True have mx: "max 0 n = n" by simp
    have c0: "cb_contents ?c0 = []"
      by (rule cb_init_contents)
    have cont1: "cb_contents c1 = xs"
      using cont bytes_of_buf_of [of xs] unfolding c0 by (simp add: n_def)
    have cnt1: "cb_count c1 = length xs"
      using length_cb_contents [of c1] by (simp only: cont1)
    define s2 where "s2 = s1\<lparr>cb_heap := heap_set (cb_heap s1) (pipe_cb w) c1\<rparr>"
    have gcw: "heap_get (cb_heap s1) (pipe_cb w) = Some ?c0"
      using gc by (simp only: cbw)
    have w: "pipe_write wfd (buf_of xs) n s1 = (Inr n, s2)"
      using pipe_write_pos [OF fw gw dw True gcw wl] by (simp only: mx s2_def)
    have fr2: "find_pipe rfd s2 = Inr (Some (length (pipe_heap s)))"
      using fr by (simp add: s2_def find_pipe_cb_heap)
    have gr2: "heap_get (pipe_heap s2) (length (pipe_heap s)) = Some r"
      using gr by (simp add: s2_def)
    have gc2: "heap_get (cb_heap s2) (pipe_cb r) = Some c1"
      using heap_get_length [OF gc] by (simp add: s2_def heap_get_heap_set cbr cbw)
    have cl: "\<forall>x \<in> set (take (nat (n - 0)) (cb_contents c1)). sint x \<noteq> eof"
      using clean by (simp add: cont1 n_def)
    from read_loop_clean [OF wf1 cl, of out]
    obtain buf' c2 where rl: "read_loop eof out n 0 c1 =
                                (0 + int (min (nat (n - 0)) (cb_count c1)), buf', c2)"
      and got: "\<forall>j < min (nat (n - 0)) (cb_count c1). buf' (0 + int j) = cb_contents c1 ! j"
      by blast
    have k: "0 + int (min (nat (n - 0)) (cb_count c1)) = n"
      by (simp add: cnt1 n_def)
    have rl': "read_loop eof out n 0 c1 = (n, buf', c2)"
      using rl by (simp only: k)
    have got': "buf' (int j) = xs ! j" if "j < length xs" for j
      using got that by (simp add: cnt1 n_def cont1)
    have rd: "pipe_read eof rfd out n s2 =
                (Inr n, buf'(n := 0), s2\<lparr>cb_heap := heap_set (cb_heap s2) (pipe_cb r) c2\<rparr>)"
      by (rule pipe_read_pos [OF fr2 gr2 dr True gc2 rl'])
    have bytes: "bytes_of (buf'(n := 0)) (length xs) = xs"
      unfolding bytes_of_def
      by (rule nth_equalityI) (simp_all add: got' n_def)
    from w rd bytes show ?thesis
      by (simp add: n_def [symmetric])
  qed
qed


theorem write_then_read_roundtrip_witness:
  "registry_ok boot \<and> pipe boot = (Inr (3, 4), snd (pipe boot)) \<and>
   length [97, 98 :: byte] \<le> 64 \<and>
   fst (pipe_write 4 (buf_of [97, 98]) (int (length [97, 98 :: byte])) (snd (pipe boot)))
     = Inr (int (length [97, 98 :: byte])) \<and>
   fst (pipe_read (- 1) 3 (buf_of []) (int (length [97, 98 :: byte]))
          (snd (pipe_write 4 (buf_of [97, 98]) (int (length [97, 98 :: byte])) (snd (pipe boot)))))
     = Inr (int (length [97, 98 :: byte])) \<and>
   bytes_of (fst (snd (pipe_read (- 1) 3 (buf_of []) (int (length [97, 98 :: byte]))
          (snd (pipe_write 4 (buf_of [97, 98]) (int (length [97, 98 :: byte])) (snd (pipe boot)))))))
       (length [97, 98 :: byte])
     = [97, 98]"
proof -
  have h: "registry_ok boot" "pipe boot = (Inr (3, 4), snd (pipe boot))"
    "length [97, 98 :: byte] \<le> 64" "\<forall>x \<in> set [97, 98 :: byte]. sint x \<noteq> - 1"
    by (simp_all add: registry_ok_boot pipe_boot)
  note t = write_then_read_roundtrip [OF h, of "buf_of []"]
  from h(1) h(2) h(3) t [THEN conjunct1] t [THEN conjunct2, THEN conjunct1]
    t [THEN conjunct2, THEN conjunct2]
  show ?thesis
    by (intro conjI)
qed

text \<open>
  The count that \<open>pipe_read\<close> returns when it meets the sentinel: the loop leaves through
  \<open>break\<close> before the increment and line 99 decrements, so the result is one less than the
  number of bytes popped before the sentinel.
\<close>

lemma read_loop_sentinel:
  assumes "cb_wf cb" and "cb_contents cb = ys @ e # zs"
    and "\<forall>y \<in> set ys. sint y \<noteq> eof" and "sint e = eof"
    and "i + int (length ys) < n"
  shows "fst (read_loop eof buf n i cb) = i + int (length ys) - 1"
  using assms
proof (induction ys arbitrary: i buf cb)
  case Nil
  from Nil.prems(2) have c: "cb_contents cb = e # zs" by simp
  from cb_pop_front_wf [OF Nil.prems(1) c]
  obtain cb1 where pop: "cb_pop_front cb = Some (e, cb1)" by blast
  have "length (cb_contents cb) = length (e # zs)"
    using c by (rule arg_cong)
  then have cnt: "cb_count cb \<noteq> 0" by simp
  from Nil.prems(5) have lt: "i < n" by simp
  have "read_loop eof buf n i cb = (i - 1, buf(i := e), cb1)"
    using lt cnt pop Nil.prems(4) by (subst read_loop.simps) simp
  then show ?case by (simp del: read_loop.simps)
next
  case (Cons y ys)
  from Cons.prems(2) have c: "cb_contents cb = y # (ys @ e # zs)" by simp
  from cb_pop_front_wf [OF Cons.prems(1) c]
  obtain cb1 where pop: "cb_pop_front cb = Some (y, cb1)" and wf1: "cb_wf cb1"
    and c1: "cb_contents cb1 = ys @ e # zs"
    by blast
  have "length (cb_contents cb) = length (y # (ys @ e # zs))"
    using c by (rule arg_cong)
  then have cnt: "cb_count cb \<noteq> 0" by simp
  from Cons.prems(5) have lt: "i < n" and lt1: "(i + 1) + int (length ys) < n"
    by simp_all
  from Cons.prems(3) have y: "sint y \<noteq> eof" and ys: "\<forall>y \<in> set ys. sint y \<noteq> eof"
    by simp_all
  have step: "read_loop eof buf n i cb = read_loop eof (buf(i := y)) n (i + 1) cb1"
    using lt cnt pop y by (subst read_loop.simps) simp
  from Cons.IH [OF wf1 c1 ys Cons.prems(4) lt1, of "buf(i := y)"]
  have "fst (read_loop eof (buf(i := y)) n (i + 1) cb1) = (i + 1) + int (length ys) - 1" .
  then have "fst (read_loop eof buf n i cb) = (i + 1) + int (length ys) - 1"
    by (simp only: step)
  then show ?case
    by (simp del: read_loop.simps)
qed

text \<open>
  C4, at a concrete state. The ring buffer holds \<open>a\<close>, \<open>b\<close> and the sentinel, and ten bytes
  are asked for. The read pops the three bytes and stops at the sentinel, but it returns 1,
  not 2: besides the sentinel the byte \<open>b\<close> is not counted, and the terminator written at
  \<open>buf[1]\<close> overwrites it.
\<close>

theorem read_undercounts_before_sentinel:
  "cb_contents cb_ab_eof = [97, 98, 255] \<and>
   fst (pipe_read (- 1) 3 (buf_of []) 10
          (task_with [0, 1] 16 (read_end [1]) (write_end [1]) cb_ab_eof)) = Inr 1 \<and>
   bytes_of (fst (snd (pipe_read (- 1) 3 (buf_of []) 10
          (task_with [0, 1] 16 (read_end [1]) (write_end [1]) cb_ab_eof)))) 3 = [97, 0, 255]"
  by (simp add: pipe_read_def find_pipe_def task_with_def heap_get_def read_end_def
      write_end_def cb_ab_eof_def cb_pop_front_def cb_contents_def bytes_of_def buf_of_def
      read_loop.simps [of _ _ 10 0] read_loop.simps [of _ _ 10 1] read_loop.simps [of _ _ 10 2]
      upt_rec)

end
